theory Spec2Isabelle
  imports Main "HOL-Library.Word" "HOL-Library.Multiset"
begin

unbundle bit_operations_syntax

section \<open>Instance tree: data model\<close>

text \<open>
  Every node of the scene graph is a Go struct that is, or embeds as its first field, a
  \<^verbatim>\<open>BaseInstance\<close>. An object is identified by its address. A non-nil value of the
  interface type \<^verbatim>\<open>Instance\<close> is a pair of the dynamic pointer type and the address;
  the nil interface is \<open>None\<close>. \<^verbatim>\<open>Werkzeug\<close> and \<^verbatim>\<open>Part\<close> override no method of
  the interface, so every method call on an interface value runs the \<^verbatim>\<open>BaseInstance\<close>
  method on the object at that address, whatever the dynamic type. A type assertion
  \<^verbatim>\<open>x.(*BaseInstance)\<close> succeeds exactly when the dynamic type is \<open>PtrBaseInstance\<close>.
  Constructors must not return typed nil pointers (instanceman.go), so addresses inside
  interface values are always valid. The payload of \<^verbatim>\<open>Part\<close> (position, size,
  rotation, primitive type) and of \<^verbatim>\<open>Werkzeug\<close> (meta) is read by no tree operation
  and is left out.
\<close>

type_synonym addr = nat

datatype dyntype = PtrBaseInstance | PtrWerkzeug | PtrPart

type_synonym Instance = "dyntype \<times> addr"

text \<open>A slice is \<open>None\<close> when it is nil and \<open>Some xs\<close> otherwise.\<close>

record BaseInstance =
  name :: string
  parent :: "Instance option"
  children :: "Instance list option"
  className :: string
  localId :: string
  this :: "Instance option"

type_synonym heap = "addr \<Rightarrow> BaseInstance"

record store =
  heap :: heap
  nextAddr :: addr

datatype error = Deadlock | InvalidClass

definition zeroBaseInstance :: BaseInstance where
  "zeroBaseInstance = \<lparr>name = [], parent = None, children = None, className = [],
     localId = [], this = None\<rparr>"

text \<open>Ranging over a nil slice visits nothing; \<open>len\<close> of it is 0.\<close>

definition elems :: "'a list option \<Rightarrow> 'a list" where
  "elems s = (case s of None \<Rightarrow> [] | Some xs \<Rightarrow> xs)"

definition emptyStore :: store where
  "emptyStore = \<lparr>heap = (\<lambda>_. zeroBaseInstance), nextAddr = 0\<rparr>"

text \<open>\<^verbatim>\<open>NewBaseInstance\<close>: a fresh object; the result is a \<^verbatim>\<open>*BaseInstance\<close>.\<close>

definition NewBaseInstance :: "string \<Rightarrow> store \<Rightarrow> addr \<times> store" where
  "NewBaseInstance cn st =
     (let a = nextAddr st in
      (a, \<lparr>heap = (heap st)(a := zeroBaseInstance\<lparr>name := cn, className := cn, children := Some []\<rparr>),
           nextAddr = Suc a\<rparr>))"

text \<open>\<^verbatim>\<open>NewWerkzeug\<close> and \<^verbatim>\<open>NewPart\<close> return the concrete pointer wrapped as Instance.\<close>

definition NewWerkzeug :: "store \<Rightarrow> Instance option \<times> store" where
  "NewWerkzeug st =
     (let a = nextAddr st in
      (Some (PtrWerkzeug, a),
       \<lparr>heap = (heap st)(a := zeroBaseInstance\<lparr>name := ''werkzeug'', className := ''Workspace'',
            children := Some [], this := Some (PtrWerkzeug, a)\<rparr>),
        nextAddr = Suc a\<rparr>))"

definition NewPart :: "store \<Rightarrow> Instance option \<times> store" where
  "NewPart st =
     (let a = nextAddr st in
      (Some (PtrPart, a),
       \<lparr>heap = (heap st)(a := zeroBaseInstance\<lparr>name := ''ExamplePart'', className := ''Part'',
            children := Some [], this := Some (PtrPart, a)\<rparr>),
        nextAddr = Suc a\<rparr>))"

subsection \<open>Basic getters and setters\<close>

definition GetName :: "heap \<Rightarrow> addr \<Rightarrow> string" where
  "GetName h b = name (h b)"

definition SetName :: "heap \<Rightarrow> addr \<Rightarrow> string \<Rightarrow> heap" where
  "SetName h b n = h(b := (h b)\<lparr>name := n\<rparr>)"

definition GetClassName :: "heap \<Rightarrow> addr \<Rightarrow> string" where
  "GetClassName h b = className (h b)"

definition GetParent :: "heap \<Rightarrow> addr \<Rightarrow> Instance option" where
  "GetParent h b = parent (h b)"

text \<open>\<^verbatim>\<open>GetChildren\<close> returns a copy, which is never nil.\<close>

definition GetChildren :: "heap \<Rightarrow> addr \<Rightarrow> Instance list" where
  "GetChildren h b = elems (children (h b))"

subsection \<open>Parent and children\<close>

text \<open>
  \<^verbatim>\<open>addChild\<close> appends (the result of \<^verbatim>\<open>append\<close> is non-nil). \<^verbatim>\<open>removeChild\<close> cuts
  out the first element equal to the child and stops; interface values are equal when
  dynamic type and pointer are. Both are given here once their lock is taken.
\<close>

definition addChild :: "heap \<Rightarrow> addr \<Rightarrow> Instance \<Rightarrow> heap" where
  "addChild h b child = h(b := (h b)\<lparr>children := Some (elems (children (h b)) @ [child])\<rparr>)"

definition removeChild :: "heap \<Rightarrow> addr \<Rightarrow> Instance \<Rightarrow> heap" where
  "removeChild h b child = h(b := (h b)\<lparr>children := map_option (remove1 child) (children (h b))\<rparr>)"

text \<open>
  \<^verbatim>\<open>SetParent\<close> holds the receiver's mutex for the whole call. \<^verbatim>\<open>removeChild\<close>,
  \<^verbatim>\<open>addChild\<close> and \<^verbatim>\<open>GetChildren\<close> lock the mutex of the node they work on, and
  \<^verbatim>\<open>sync.Mutex\<close> is not re-entrant: when that node is the receiver the call never
  returns. In the branch for a parent that is not a \<^verbatim>\<open>*BaseInstance\<close> the rebuilt slice
  is stored only under a second assertion to \<^verbatim>\<open>*BaseInstance\<close>, which fails again, so
  nothing is stored. The receiver passes itself on as a \<^verbatim>\<open>*BaseInstance\<close>.
\<close>

definition SetParent :: "heap \<Rightarrow> addr \<Rightarrow> Instance option \<Rightarrow> error + heap" where
  "SetParent h b newParent =
     (case (case parent (h b) of
              None \<Rightarrow> Inr h
            | Some (ty, p) \<Rightarrow>
                if ty = PtrBaseInstance
                then (if p = b then Inl Deadlock else Inr (removeChild h p (PtrBaseInstance, b)))
                else (if p = b then Inl Deadlock else Inr h)) of
        Inl e \<Rightarrow> Inl e
      | Inr h1 \<Rightarrow>
          (let h2 = h1(b := (h1 b)\<lparr>parent := newParent\<rparr>) in
           case newParent of
             None \<Rightarrow> Inr h2
           | Some (ty, p) \<Rightarrow>
               if ty = PtrBaseInstance
               then (if p = b then Inl Deadlock else Inr (addChild h2 p (PtrBaseInstance, b)))
               else Inr h2))"

definition FindFirstChild :: "heap \<Rightarrow> addr \<Rightarrow> string \<Rightarrow> Instance option" where
  "FindFirstChild h b n = find (\<lambda>c. GetName h (snd c) = n) (elems (children (h b)))"

text \<open>
  \<^verbatim>\<open>GetDescendants\<close> copies the child slice and, for each child in order, appends the
  child and then the child's descendants: through the method when the child is a
  \<^verbatim>\<open>*BaseInstance\<close>, through \<^verbatim>\<open>getDescendantsInterface\<close> otherwise. The recursion
  follows the heap and has no bound when the child links form a cycle, so both functions
  take fuel (the depth of calls still allowed) and return \<open>None\<close> when it runs out.
\<close>

definition appendAll :: "'a list option list \<Rightarrow> 'a list option" where
  "appendAll rs = map_option concat (those rs)"

fun getDescendantsInterface :: "nat \<Rightarrow> heap \<Rightarrow> Instance \<Rightarrow> Instance list option" where
  "getDescendantsInterface 0 h inst = None"
| "getDescendantsInterface (Suc n) h inst =
     appendAll (map (\<lambda>child. map_option (\<lambda>ds. child # ds) (getDescendantsInterface n h child))
                    (GetChildren h (snd inst)))"

fun GetDescendants :: "nat \<Rightarrow> heap \<Rightarrow> addr \<Rightarrow> Instance list option" where
  "GetDescendants 0 h b = None"
| "GetDescendants (Suc n) h b =
     appendAll (map (\<lambda>child. map_option (\<lambda>ds. child # ds)
                       (if fst child = PtrBaseInstance then GetDescendants n h (snd child)
                        else getDescendantsInterface n h child))
                    (elems (children (h b))))"

subsection \<open>Lifecycle\<close>

text \<open>
  \<^verbatim>\<open>Destroy\<close> copies the child slice, destroys each child of the copy in order, removes
  the receiver from its parent when the parent is a \<^verbatim>\<open>*BaseInstance\<close>, and clears the
  parent and the child slice to nil. No mutex is held across a call, so it cannot block;
  it recurses along the heap, hence the fuel.
\<close>

fun forEachChild :: "(heap \<Rightarrow> addr \<Rightarrow> heap option) \<Rightarrow> heap \<Rightarrow> Instance list \<Rightarrow> heap option" where
  "forEachChild f h [] = Some h"
| "forEachChild f h (child # cs) =
     (case f h (snd child) of None \<Rightarrow> None | Some h1 \<Rightarrow> forEachChild f h1 cs)"

primrec Destroy :: "nat \<Rightarrow> heap \<Rightarrow> addr \<Rightarrow> heap option" where
  "Destroy 0 = (\<lambda>h b. None)"
| "Destroy (Suc n) = (\<lambda>h b.
     case forEachChild (Destroy n) h (elems (children (h b))) of
       None \<Rightarrow> None
     | Some h1 \<Rightarrow>
         (let h2 = (case parent (h1 b) of
                      None \<Rightarrow> h1
                    | Some (ty, p) \<Rightarrow>
                        if ty = PtrBaseInstance then removeChild h1 p (PtrBaseInstance, b) else h1)
          in Some (h2(b := (h2 b)\<lparr>parent := None, children := None\<rparr>))))"

section \<open>Registry, factory and tree manager\<close>

text \<open>
  A constructor is Go code that may allocate: it maps the store to a result (nil or an
  Instance) and the new store. \<^verbatim>\<open>RegisterClass\<close> takes a possibly nil constructor.
\<close>

type_synonym InstanceConstructor = "store \<Rightarrow> Instance option \<times> store"

record instanceManager =
  registry :: "string \<rightharpoonup> InstanceConstructor"
  root :: "Instance option"

definition RegisterClass ::
  "instanceManager \<Rightarrow> string \<Rightarrow> InstanceConstructor option \<Rightarrow> error option \<times> instanceManager" where
  "RegisterClass m cn ctor =
     (case ctor of
        None \<Rightarrow> (Some InvalidClass, m)
      | Some c \<Rightarrow>
          if cn = [] then (Some InvalidClass, m)
          else (None, m\<lparr>registry := (registry m)(cn \<mapsto> c)\<rparr>))"

definition baseCtor :: InstanceConstructor where
  "baseCtor st =
     (case NewBaseInstance ''Instance'' st of
        (b, st1) \<Rightarrow> (Some (PtrBaseInstance, b),
                      st1\<lparr>heap := (heap st1)(b := (heap st1 b)\<lparr>name := ''Instance''\<rparr>)\<rparr>))"

definition NewInstanceManager :: instanceManager where
  "NewInstanceManager =
     snd (RegisterClass \<lparr>registry = Map.empty, root = None\<rparr> ''Instance'' (Some baseCtor))"

text \<open>
  \<^verbatim>\<open>Create\<close>: nil when the class is unregistered or the constructor returns nil. The
  backfill of the child slice and of the class name runs only when the result asserts to
  \<^verbatim>\<open>*BaseInstance\<close>, and the class name is written only when it is empty.
\<close>

definition Create :: "instanceManager \<Rightarrow> string \<Rightarrow> store \<Rightarrow> Instance option \<times> store" where
  "Create m cn st =
     (case registry m cn of
        None \<Rightarrow> (None, st)
      | Some ctor \<Rightarrow>
          (case ctor st of
             (None, st1) \<Rightarrow> (None, st1)
           | (Some inst, st1) \<Rightarrow>
               if fst inst = PtrBaseInstance then
                 (let b = snd inst;
                      h = heap st1;
                      h1 = (if children (h b) = None then h(b := (h b)\<lparr>children := Some []\<rparr>) else h);
                      h2 = (if className (h1 b) = [] then h1(b := (h1 b)\<lparr>className := cn\<rparr>) else h1)
                  in (Some inst, st1\<lparr>heap := h2\<rparr>))
               else (Some inst, st1)))"

definition CreateNamed :: "instanceManager \<Rightarrow> string \<Rightarrow> string \<Rightarrow> store \<Rightarrow> Instance option \<times> store" where
  "CreateNamed m cn n st =
     (case Create m cn st of
        (None, st1) \<Rightarrow> (None, st1)
      | (Some inst, st1) \<Rightarrow> (Some inst, st1\<lparr>heap := SetName (heap st1) (snd inst) n\<rparr>))"

definition SetRoot :: "instanceManager \<Rightarrow> Instance option \<Rightarrow> instanceManager" where
  "SetRoot m r = m\<lparr>root := r\<rparr>"

text \<open>
  \<^verbatim>\<open>GetRoot\<close> returns the root when one is set. When none is set it takes the manager's
  write lock and calls \<^verbatim>\<open>CreateNamed\<close>, whose \<^verbatim>\<open>Create\<close> asks for the read lock of
  the same \<^verbatim>\<open>sync.RWMutex\<close>: a read lock waits for the writer, which is the caller
  itself, so the call never returns.
\<close>

definition GetRoot :: "instanceManager \<Rightarrow> error + Instance" where
  "GetRoot m = (case root m of None \<Rightarrow> Inl Deadlock | Some r \<Rightarrow> Inr r)"

text \<open>\<^verbatim>\<open>strings.Split(path, ".")\<close>: the pieces between the dots, one more than dots.\<close>

fun splitDot :: "string \<Rightarrow> string list" where
  "splitDot [] = [[]]"
| "splitDot (c # cs) =
     (if c = CHR ''.'' then [] # splitDot cs
      else (case splitDot cs of [] \<Rightarrow> [[c]] | p # ps \<Rightarrow> (c # p) # ps))"

text \<open>The loop over \<^verbatim>\<open>parts[1:]\<close>: a nil cursor returns nil at once.\<close>

fun walkParts :: "heap \<Rightarrow> Instance option \<Rightarrow> string list \<Rightarrow> Instance option" where
  "walkParts h cur [] = cur"
| "walkParts h cur (part # ps) =
     (case cur of None \<Rightarrow> None | Some c \<Rightarrow> walkParts h (FindFirstChild h (snd c) part) ps)"

definition FindByPath :: "instanceManager \<Rightarrow> heap \<Rightarrow> string \<Rightarrow> error + Instance option" where
  "FindByPath m h path =
     (if path = [] then Inr None
      else (case splitDot path of
              [] \<Rightarrow> Inr None
            | p0 # ps \<Rightarrow>
                (case GetRoot m of
                   Inl e \<Rightarrow> Inl e
                 | Inr r \<Rightarrow>
                     if GetName h (snd r) \<noteq> p0 then
                       (case FindFirstChild h (snd r) p0 of
                          None \<Rightarrow> Inr None
                        | Some c \<Rightarrow> Inr (walkParts h (Some c) ps))
                     else Inr (walkParts h (Some r) ps))))"

subsection \<open>Clone\<close>

text \<open>
  \<^verbatim>\<open>Clone\<close> reads the package variable \<^verbatim>\<open>DefaultInstanceManager\<close> (the argument
  \<open>dm\<close>, \<open>None\<close> when it is nil). With a manager it creates a node of the receiver's
  class, falling back to \<^verbatim>\<open>NewBaseInstance\<close> when \<^verbatim>\<open>Create\<close> returns nil, names it, and
  for each child of the receiver clones the child and calls \<^verbatim>\<open>SetParent\<close> on the copy
  with the new node. The result is \<open>None\<close> when the call does not return: the fuel
  ran out, or \<^verbatim>\<open>SetParent\<close> blocked.
\<close>

fun cloneChildren ::
  "(store \<Rightarrow> addr \<Rightarrow> (Instance \<times> store) option) \<Rightarrow> Instance \<Rightarrow> store \<Rightarrow> Instance list \<Rightarrow> store option" where
  "cloneChildren f inst st [] = Some st"
| "cloneChildren f inst st (child # cs) =
     (case f st (snd child) of
        None \<Rightarrow> None
      | Some (cc, st1) \<Rightarrow>
          (case SetParent (heap st1) (snd cc) (Some inst) of
             Inl e \<Rightarrow> None
           | Inr h \<Rightarrow> cloneChildren f inst (st1\<lparr>heap := h\<rparr>) cs))"

primrec Clone :: "nat \<Rightarrow> instanceManager option \<Rightarrow> store \<Rightarrow> addr \<Rightarrow> (Instance \<times> store) option" where
  "Clone 0 dm = (\<lambda>st b. None)"
| "Clone (Suc n) dm = (\<lambda>st b.
     case dm of
       Some m \<Rightarrow>
         (case (case Create m (className (heap st b)) st of
                  (None, st1) \<Rightarrow>
                    (case NewBaseInstance (className (heap st1 b)) st1 of
                       (a, st2) \<Rightarrow> ((PtrBaseInstance, a), st2))
                | (Some i, st1) \<Rightarrow> (i, st1)) of
            (inst, st2) \<Rightarrow>
              (let st3 = st2\<lparr>heap := SetName (heap st2) (snd inst) (name (heap st2 b))\<rparr> in
               map_option (\<lambda>st4. (inst, st4))
                 (cloneChildren (Clone n dm) inst st3 (GetChildren (heap st3) b))))
     | None \<Rightarrow>
         (case NewBaseInstance (className (heap st b)) st of
            (a, st1) \<Rightarrow>
              (let st2 = st1\<lparr>heap := (heap st1)(a := (heap st1 a)\<lparr>name := name (heap st1 b)\<rparr>)\<rparr> in
               map_option (\<lambda>st3. ((PtrBaseInstance, a), st3))
                 (cloneChildren (Clone n dm) (PtrBaseInstance, a) st2 (GetChildren (heap st2) b)))))"

section \<open>Network manager\<close>

text \<open>
  A \<^verbatim>\<open>net.Conn\<close> is the environment's: the model keeps the bytes written to it so far,
  how many more \<^verbatim>\<open>Write\<close> calls will succeed (\<open>None\<close>: all of them) and whether it was
  closed. Effects whose order matters are returned as a trace. The server-mode fields
  (listener, client registry), the handler table and the event channel are not touched
  by the functions below and are left out, as is the back pointer of a client handle.
\<close>

type_synonym byte = "8 word"

record Conn =
  written :: "byte list"
  writesLeft :: "nat option"
  connClosed :: bool

datatype neterror = NilManager | NotConnected | ClientNotConnected | WriteFailed | DialFailed
  | HandshakeFailed

datatype effect = Dial string int | StartReadLoop | Write "byte list" | CloseManager

record ClientConn =
  cconn :: "Conn option"

record PacketEvent =
  PType :: byte
  PSub :: byte
  Payload :: "byte list"
  Client :: "ClientConn option"

record NetworkManager =
  conn :: "Conn option"
  dm :: "instanceManager option"
  wg :: nat
  cancelled :: bool

definition connWrite :: "Conn \<Rightarrow> byte list \<Rightarrow> bool \<times> Conn" where
  "connWrite c bs =
     (if connClosed c \<or> writesLeft c = Some 0 then (False, c)
      else (True, c\<lparr>written := written c @ bs,
                     writesLeft := map_option (\<lambda>n. n - 1) (writesLeft c)\<rparr>))"

text \<open>\<^verbatim>\<open>binary.BigEndian\<close>, as the standard library defines it.\<close>

definition PutUint32 :: "32 word \<Rightarrow> byte list" where
  "PutUint32 v = [ucast (drop_bit 24 v), ucast (drop_bit 16 v), ucast (drop_bit 8 v), ucast v]"

definition Uint32 :: "byte list \<Rightarrow> 32 word" where
  "Uint32 b = ucast (b ! 3) OR push_bit 8 (ucast (b ! 2)) OR push_bit 16 (ucast (b ! 1))
              OR push_bit 24 (ucast (b ! 0))"

text \<open>
  The body that both \<^verbatim>\<open>SendPacket\<close> methods share once the connection is known: the
  header holds \<^verbatim>\<open>uint32(2 + len(payload))\<close>, then come type and subtype in one write,
  then the payload when it is not empty. The first failing write ends the call.
\<close>

definition writeFrame :: "Conn \<Rightarrow> byte \<Rightarrow> byte \<Rightarrow> byte list \<Rightarrow> bool \<times> Conn \<times> effect list" where
  "writeFrame c ptype psub payload =
     (let header = PutUint32 (word_of_nat (2 + length payload)) in
      case connWrite c header of
        (False, c1) \<Rightarrow> (False, c1, [])
      | (True, c1) \<Rightarrow>
          (case connWrite c1 [ptype, psub] of
             (False, c2) \<Rightarrow> (False, c2, [Write header])
           | (True, c2) \<Rightarrow>
               if length payload > 0 then
                 (case connWrite c2 payload of
                    (False, c3) \<Rightarrow> (False, c3, [Write header, Write [ptype, psub]])
                  | (True, c3) \<Rightarrow> (True, c3, [Write header, Write [ptype, psub], Write payload]))
               else (True, c2, [Write header, Write [ptype, psub]])))"

definition ClientConn_SendPacket ::
  "ClientConn option \<Rightarrow> byte \<Rightarrow> byte \<Rightarrow> byte list \<Rightarrow> neterror option \<times> ClientConn option \<times> effect list" where
  "ClientConn_SendPacket c ptype psub payload =
     (case c of
        None \<Rightarrow> (Some ClientNotConnected, c, [])
      | Some cc \<Rightarrow>
          (case cconn cc of
             None \<Rightarrow> (Some ClientNotConnected, c, [])
           | Some k \<Rightarrow>
               (case writeFrame k ptype psub payload of
                  (ok, k1, es) \<Rightarrow>
                    (if ok then None else Some WriteFailed, Some (cc\<lparr>cconn := Some k1\<rparr>), es))))"

definition SendPacket ::
  "NetworkManager option \<Rightarrow> byte \<Rightarrow> byte \<Rightarrow> byte list \<Rightarrow> neterror option \<times> NetworkManager option \<times> effect list" where
  "SendPacket nm ptype psub payload =
     (case nm of
        None \<Rightarrow> (Some NilManager, nm, [])
      | Some m \<Rightarrow>
          (case conn m of
             None \<Rightarrow> (Some NotConnected, nm, [])
           | Some k \<Rightarrow>
               (case writeFrame k ptype psub payload of
                  (ok, k1, es) \<Rightarrow>
                    (if ok then None else Some WriteFailed, Some (m\<lparr>conn := Some k1\<rparr>), es))))"

text \<open>
  \<^verbatim>\<open>Close\<close>, as far as the client-mode state goes: it cancels the context, closes the
  dialed connection and returns once the wait group is back at zero (a reader leaves its
  loop when its connection is closed).
\<close>

definition Close :: "NetworkManager \<Rightarrow> NetworkManager" where
  "Close m = m\<lparr>cancelled := True, conn := map_option (\<lambda>k. k\<lparr>connClosed := True\<rparr>) (conn m),
               wg := 0\<rparr>"

text \<open>
  \<^verbatim>\<open>Connect\<close>: \<open>dial\<close> is \<^verbatim>\<open>net.Dial\<close> on the joined address, \<open>None\<close> when it fails.
  After a successful dial the manager stores the connection and the datamodel, adds one
  to the wait group and starts the reader goroutine, and only then sends the handshake
  (type 0, subtype 1, payload the bytes of the key); a failed send closes the manager.
\<close>

definition Connect ::
  "(string \<Rightarrow> int \<Rightarrow> Conn option) \<Rightarrow> NetworkManager option \<Rightarrow> string \<Rightarrow> instanceManager option \<Rightarrow>
     string \<Rightarrow> int \<Rightarrow> neterror option \<times> NetworkManager option \<times> effect list" where
  "Connect dial nm key datamodel host port =
     (case nm of
        None \<Rightarrow> (Some NilManager, nm, [])
      | Some m \<Rightarrow>
          (case dial host port of
             None \<Rightarrow> (Some DialFailed, nm, [Dial host port])
           | Some k \<Rightarrow>
               (let m1 = m\<lparr>conn := Some k, dm := datamodel\<rparr>;
                    m2 = m1\<lparr>wg := Suc (wg m1)\<rparr> in
                case SendPacket (Some m2) 0 1 (map of_char key) of
                  (None, m3, es) \<Rightarrow> (None, m3, [Dial host port, StartReadLoop] @ es)
                | (Some e, m3, es) \<Rightarrow>
                    (Some HandshakeFailed, map_option Close m3,
                     [Dial host port, StartReadLoop] @ es @ [CloseManager]))))"

text \<open>
  \<^verbatim>\<open>readLoop\<close> on a stream that delivers \<open>input\<close> and then ends, with the context not
  cancelled and the event channel accepting every event. \<^verbatim>\<open>io.ReadFull\<close> fails when
  the stream ends before the buffer is full. Each of the three exits closes the
  connection; the result is the events emitted, in order, and the exit taken.
\<close>

datatype loopExit = ReadHeaderError | InvalidBodyLength | ReadBodyError

function readLoop :: "ClientConn option \<Rightarrow> byte list \<Rightarrow> PacketEvent list \<times> loopExit" where
  "readLoop client input =
     (if length input < 4 then ([], ReadHeaderError)
      else if unat (Uint32 (take 4 input)) < 2 then ([], InvalidBodyLength)
      else if length (drop 4 input) < unat (Uint32 (take 4 input)) then ([], ReadBodyError)
      else (case readLoop client (drop (unat (Uint32 (take 4 input))) (drop 4 input)) of
              (evs, ex) \<Rightarrow>
                (\<lparr>PType = take (unat (Uint32 (take 4 input))) (drop 4 input) ! 0,
                  PSub = take (unat (Uint32 (take 4 input))) (drop 4 input) ! 1,
                  Payload = drop 2 (take (unat (Uint32 (take 4 input))) (drop 4 input)),
                  Client = client\<rparr> # evs, ex)))"
  by pat_completeness auto
termination
  by (relation "measure (\<lambda>(client, input). length input)") auto

section \<open>Fixtures and predicates used by the properties\<close>

text \<open>\<open>precedes x y es\<close>: \<open>x\<close> occurs in the trace and \<open>y\<close> occurs after its first occurrence.\<close>

definition precedes :: "'a \<Rightarrow> 'a \<Rightarrow> 'a list \<Rightarrow> bool" where
  "precedes x y es = (x \<in> set es \<and> y \<in> set (dropWhile (\<lambda>e. e \<noteq> x) es))"

definition freshConn :: Conn where
  "freshConn = \<lparr>written = [], writesLeft = None, connClosed = False\<rparr>"

definition idleManager :: NetworkManager where
  "idleManager = \<lparr>conn = None, dm = None, wg = 0, cancelled = False\<rparr>"

text \<open>The heap after a call of \<^verbatim>\<open>SetParent\<close> that returns (the heap as it was otherwise).\<close>

definition afterSetParent :: "heap \<Rightarrow> addr \<Rightarrow> Instance option \<Rightarrow> heap" where
  "afterSetParent h b p = (case SetParent h b p of Inl e \<Rightarrow> h | Inr h1 \<Rightarrow> h1)"

text \<open>A \<^verbatim>\<open>Werkzeug\<close> at address 0 and a base node at address 1.\<close>

definition workspaceAndNode :: store where
  "workspaceAndNode = snd (NewBaseInstance ''Instance'' (snd (NewWerkzeug emptyStore)))"

text \<open>Base nodes 0, 1, 2; then 1 and 2 are made children of 0, in this order.\<close>

definition threeNodes :: store where
  "threeNodes = snd (NewBaseInstance ''Instance'' (snd (NewBaseInstance ''Instance''
                   (snd (NewBaseInstance ''Instance'' emptyStore)))))"

definition twoSiblings :: heap where
  "twoSiblings = afterSetParent (afterSetParent (heap threeNodes) 1 (Some (PtrBaseInstance, 0)))
                   2 (Some (PtrBaseInstance, 0))"

text \<open>
  Registrations used as inputs: the manager's own base constructor under another name;
  \<^verbatim>\<open>func() Instance { return &Part{} }\<close> and \<^verbatim>\<open>func() Instance { return &BaseInstance{} }\<close>,
  which set no field; \<^verbatim>\<open>NewPart\<close> under its class name.
\<close>

definition folderManager :: instanceManager where
  "folderManager = snd (RegisterClass NewInstanceManager ''Folder'' (Some baseCtor))"

definition sloppyPartCtor :: InstanceConstructor where
  "sloppyPartCtor st = (Some (PtrPart, nextAddr st),
     \<lparr>heap = (heap st)(nextAddr st := zeroBaseInstance), nextAddr = Suc (nextAddr st)\<rparr>)"

definition sloppyBaseCtor :: InstanceConstructor where
  "sloppyBaseCtor st = (Some (PtrBaseInstance, nextAddr st),
     \<lparr>heap = (heap st)(nextAddr st := zeroBaseInstance), nextAddr = Suc (nextAddr st)\<rparr>)"

definition partManager :: instanceManager where
  "partManager = snd (RegisterClass NewInstanceManager ''Part'' (Some NewPart))"

text \<open>
  A root (address 0), a \<^verbatim>\<open>Part\<close> under it (1) and a node under the Part (2), which is
  attached through the pointer that the root's child list holds for the Part.
\<close>

definition partStore :: store where
  "partStore =
     (case Create partManager ''Instance'' emptyStore of (r, s1) \<Rightarrow>
      case Create partManager ''Part'' s1 of (p, s2) \<Rightarrow>
      case Create partManager ''Instance'' (s2\<lparr>heap := afterSetParent (heap s2) (snd (the p)) r\<rparr>) of (x, s3) \<Rightarrow>
      s3\<lparr>heap := afterSetParent (heap s3) (snd (the x))
                    (FindFirstChild (heap s3) (snd (the r)) ''ExamplePart'')\<rparr>)"

text \<open>The path scenario: a root named Root (0), its child A (1), and A's child B (2).\<close>

definition pathStore :: store where
  "pathStore =
     (case CreateNamed NewInstanceManager ''Instance'' ''Root'' emptyStore of (r, s1) \<Rightarrow>
      case CreateNamed NewInstanceManager ''Instance'' ''A'' s1 of (a, s2) \<Rightarrow>
      case CreateNamed NewInstanceManager ''Instance'' ''B''
             (s2\<lparr>heap := afterSetParent (heap s2) (snd (the a)) r\<rparr>) of (b, s3) \<Rightarrow>
      s3\<lparr>heap := afterSetParent (heap s3) (snd (the b)) a\<rparr>)"

definition pathManager :: instanceManager where
  "pathManager = SetRoot NewInstanceManager (Some (PtrBaseInstance, 0))"

text \<open>
  Path resolution in the specification's words: segment by segment through
  \<^verbatim>\<open>FindFirstChild\<close>, none as soon as a segment does not resolve.
\<close>

fun resolveSegments :: "heap \<Rightarrow> Instance \<Rightarrow> string list \<Rightarrow> Instance option" where
  "resolveSegments h cur [] = Some cur"
| "resolveSegments h cur (s # ss) =
     (case FindFirstChild h (snd cur) s of None \<Rightarrow> None | Some c \<Rightarrow> resolveSegments h c ss)"

text \<open>
  The child links as a relation on addresses, the nodes reachable from a set of nodes,
  the tree invariant of the data model, acyclicity by a rank, and the facts that relate
  the heap before a \<^verbatim>\<open>Destroy\<close> to the heap after it: child lists only lose entries and
  stay distinct, the nodes in \<open>R\<close> end with no children, every entry lost points into
  \<open>R\<close>, and parent pointers outside \<open>R\<close> are kept.
\<close>

definition childEdges :: "heap \<Rightarrow> (addr \<times> addr) set" where
  "childEdges h = {(u, v). v \<in> snd ` set (GetChildren h u)}"

definition reachFrom :: "heap \<Rightarrow> addr set \<Rightarrow> addr set" where
  "reachFrom h S = (childEdges h)\<^sup>* `` S"

definition destroyPost :: "heap \<Rightarrow> addr set \<Rightarrow> heap \<Rightarrow> bool" where
  "destroyPost h R h1 \<longleftrightarrow>
     (\<forall>x. set (GetChildren h1 x) \<subseteq> set (GetChildren h x))
   \<and> (\<forall>x. distinct (GetChildren h x) \<longrightarrow> distinct (GetChildren h1 x))
   \<and> (\<forall>x\<in>R. GetChildren h1 x = [])
   \<and> (\<forall>u c. c \<in> set (GetChildren h u) \<longrightarrow> c \<notin> set (GetChildren h1 u) \<longrightarrow> snd c \<in> R)
   \<and> (\<forall>x. x \<notin> R \<longrightarrow> parent (h1 x) = parent (h x))"

definition treeInvariant :: "heap \<Rightarrow> bool" where
  "treeInvariant h \<longleftrightarrow>
     (\<forall>q. distinct (GetChildren h q)
        \<and> (\<forall>c\<in>set (GetChildren h q). fst c = PtrBaseInstance \<and> parent (h (snd c)) = Some (PtrBaseInstance, q)))"

definition ranked :: "heap \<Rightarrow> (addr \<Rightarrow> nat) \<Rightarrow> bool" where
  "ranked h rank \<longleftrightarrow> (\<forall>q. \<forall>c\<in>set (GetChildren h q). rank (snd c) < rank q)"

text \<open>
  The shape of the subtree at a node: class name, name and the shapes of the children, in
  order; none when the fuel does not reach the leaves. \<open>clonePost\<close> relates the store
  before a \<^verbatim>\<open>Clone\<close> to the store after it.
\<close>

datatype shape = Shape string string "shape list"

fun shapeOf :: "nat \<Rightarrow> heap \<Rightarrow> addr \<Rightarrow> shape option" where
  "shapeOf 0 h a = None"
| "shapeOf (Suc n) h a =
     map_option (Shape (className (h a)) (name (h a)))
       (those (map (\<lambda>c. shapeOf n h (snd c)) (GetChildren h a)))"

definition clonePost :: "nat \<Rightarrow> store \<Rightarrow> shape \<Rightarrow> store \<Rightarrow> bool" where
  "clonePost f st t st1 \<longleftrightarrow>
     nextAddr st < nextAddr st1
   \<and> (\<forall>x<nextAddr st. heap st1 x = heap st x)
   \<and> shapeOf f (heap st1) (nextAddr st) = Some t
   \<and> parent (heap st1 (nextAddr st)) = None
   \<and> reachFrom (heap st1) {nextAddr st} \<subseteq> {x. nextAddr st \<le> x \<and> x < nextAddr st1}"

section \<open>Properties of the network manager\<close>

lemma PutUint32_3: "PutUint32 3 = [0, 0, 0, 3]"
  by (simp add: PutUint32_def drop_bit_eq_div)

lemma PutUint32_5: "PutUint32 5 = [0, 0, 0, 5]"
  by (simp add: PutUint32_def drop_bit_eq_div)

lemma Uint32_5: "Uint32 [0, 0, 0, 5] = 5"
  by (simp add: Uint32_def)

lemma Uint32_1: "Uint32 [0, 0, 0, 1] = 1"
  by (simp add: Uint32_def)

lemma Uint32_PutUint32: "Uint32 (PutUint32 v) = v"
  unfolding Uint32_def PutUint32_def
proof (rule bit_word_eqI)
  fix n assume "n < LENGTH(32)"
  then have n: "n < 32" by simp
  consider "n < 8" | "8 \<le> n" "n < 16" | "16 \<le> n" "n < 24" | "24 \<le> n" "n < 32"
    using n by linarith
  then show "bit (ucast ([ucast (drop_bit 24 v), ucast (drop_bit 16 v), ucast (drop_bit 8 v), ucast v :: 8 word] ! 3) OR
         push_bit 8 (ucast ([ucast (drop_bit 24 v), ucast (drop_bit 16 v), ucast (drop_bit 8 v), ucast v :: 8 word] ! 2)) OR
         push_bit 16 (ucast ([ucast (drop_bit 24 v), ucast (drop_bit 16 v), ucast (drop_bit 8 v), ucast v :: 8 word] ! 1)) OR
         push_bit 24 (ucast ([ucast (drop_bit 24 v), ucast (drop_bit 16 v), ucast (drop_bit 8 v), ucast v :: 8 word] ! 0)) :: 32 word) n
       = bit v n"
    by cases (auto simp: bit_simps)
qed

lemma length_PutUint32: "length (PutUint32 v) = 4"
  by (simp add: PutUint32_def)

lemma readLoop_end: "readLoop client [] = ([], ReadHeaderError)"
  by (subst readLoop.simps) simp

lemma readLoop_one_frame:
  assumes "unat w = 2 + length payload"
  shows "readLoop client (PutUint32 w @ [ptype, psub] @ payload)
     = ([\<lparr>PType = ptype, PSub = psub, Payload = payload, Client = client\<rparr>], ReadHeaderError)"
  by (subst readLoop.simps) (simp add: length_PutUint32 Uint32_PutUint32 assms readLoop_end)

text \<open>
  Any frame whose length fits the header decodes to the packet it was written from, and a
  send on an open connection writes exactly that frame.
\<close>

lemma frame_roundtrip:
  assumes "2 + length payload < 2 ^ 32"
  shows "readLoop client (PutUint32 (word_of_nat (2 + length payload)) @ [ptype, psub] @ payload)
     = ([\<lparr>PType = ptype, PSub = psub, Payload = payload, Client = client\<rparr>], ReadHeaderError)"
proof (rule readLoop_one_frame)
  show "unat (word_of_nat (2 + length payload) :: 32 word) = 2 + length payload"
    by (rule of_nat_inverse [OF refl]) (use assms in simp)
qed

lemma writeFrame_bytes:
  assumes "\<not> connClosed k" and "writesLeft k = None"
  shows "writeFrame k ptype psub payload =
    (True, k\<lparr>written := written k @ PutUint32 (word_of_nat (2 + length payload)) @ [ptype, psub] @ payload\<rparr>,
     [Write (PutUint32 (word_of_nat (2 + length payload))), Write [ptype, psub]]
       @ (if payload = [] then [] else [Write payload]))"
  using assms by (cases payload) (simp_all add: writeFrame_def connWrite_def Let_def)

text \<open>
  C2. Sending type 7, subtype 3, payload "abc" on a fresh connection writes the nine bytes
  00 00 00 05 07 03 61 62 63 in three writes; the receive loop run on exactly these bytes
  emits the one event (7, 3, "abc") and then leaves at the end of the stream; a frame
  whose length field is 1 emits nothing and leaves through the invalid-length exit,
  which closes the connection, whatever bytes follow.
\<close>

theorem frame_roundtrip_abc:
  "SendPacket (Some (idleManager\<lparr>conn := Some freshConn\<rparr>)) 7 3 [97, 98, 99]
     = (None,
        Some (idleManager\<lparr>conn := Some (freshConn\<lparr>written := [0, 0, 0, 5, 7, 3, 97, 98, 99]\<rparr>)\<rparr>),
        [Write [0, 0, 0, 5], Write [7, 3], Write [97, 98, 99]])
   \<and> readLoop client [0, 0, 0, 5, 7, 3, 97, 98, 99]
     = ([\<lparr>PType = 7, PSub = 3, Payload = [97, 98, 99], Client = client\<rparr>], ReadHeaderError)
   \<and> readLoop client ([0, 0, 0, 1] @ rest) = ([], InvalidBodyLength)"
proof -
  have a: "SendPacket (Some (idleManager\<lparr>conn := Some freshConn\<rparr>)) 7 3 [97, 98, 99]
     = (None,
        Some (idleManager\<lparr>conn := Some (freshConn\<lparr>written := [0, 0, 0, 5, 7, 3, 97, 98, 99]\<rparr>)\<rparr>),
        [Write [0, 0, 0, 5], Write [7, 3], Write [97, 98, 99]])"
    by (simp add: SendPacket_def writeFrame_def connWrite_def PutUint32_5 idleManager_def
        freshConn_def)
  have e: "readLoop client [] = ([], ReadHeaderError)"
    by (subst readLoop.simps) simp
  have b: "readLoop client [0, 0, 0, 5, 7, 3, 97, 98, 99]
     = ([\<lparr>PType = 7, PSub = 3, Payload = [97, 98, 99], Client = client\<rparr>], ReadHeaderError)"
    by (subst readLoop.simps) (simp add: Uint32_5 e)
  have c: "readLoop client ([0, 0, 0, 1] @ rest) = ([], InvalidBodyLength)"
    by (subst readLoop.simps) (simp add: Uint32_1)
  from a b c show ?thesis by blast
qed

theorem frame_roundtrip_abc_witness:
  "readLoop None [0, 0, 0, 5, 7, 3, 97, 98, 99]
     = ([\<lparr>PType = 7, PSub = 3, Payload = [97, 98, 99], Client = None\<rparr>], ReadHeaderError)
   \<and> readLoop None [0, 0, 0, 1, 7] = ([], InvalidBodyLength)"
  using frame_roundtrip_abc [of None "[7]"] by simp

text \<open>
  C8, as the claim states it, fails: in the trace of a successful \<^verbatim>\<open>Connect\<close> the start
  of the receive loop comes before the first write of the handshake, not after it.
\<close>

theorem Connect_handshake_after_reader_counterexample:
  "snd (snd (Connect (\<lambda>h p. Some freshConn) (Some idleManager) ''k'' None ''localhost'' 3000))
     = [Dial ''localhost'' 3000, StartReadLoop, Write [0, 0, 0, 3], Write [0, 1], Write [107]]
   \<and> \<not> precedes (Write [0, 0, 0, 3]) StartReadLoop
         (snd (snd (Connect (\<lambda>h p. Some freshConn) (Some idleManager) ''k'' None ''localhost'' 3000)))"
  by (simp add: Connect_def SendPacket_def writeFrame_def connWrite_def freshConn_def
      idleManager_def PutUint32_3 precedes_def)

text \<open>
  C8, amended. When the dial succeeds with a connection that is open and accepts writes,
  \<^verbatim>\<open>Connect\<close> on a non-nil manager returns no error after exactly these effects, in this
  order: one dial, one start of a receive loop, then the handshake frame (the header with
  length 2 + the key's length, the bytes 0 and 1, and the key when it is not empty). The
  manager then holds the connection with the frame appended to what was written, the
  datamodel, and one more reader in its wait group.
\<close>

theorem Connect_reader_then_handshake:
  assumes "dial host port = Some k" and "\<not> connClosed k" and "writesLeft k = None"
  shows "Connect dial (Some m) key datamodel host port =
     (None,
      Some (m\<lparr>conn := Some (k\<lparr>written := written k @ PutUint32 (word_of_nat (2 + length key))
                                  @ [0, 1] @ map of_char key\<rparr>),
               dm := datamodel, wg := Suc (wg m)\<rparr>),
      [Dial host port, StartReadLoop, Write (PutUint32 (word_of_nat (2 + length key))), Write [0, 1]]
        @ (if key = [] then [] else [Write (map of_char key)]))"
  using assms
  by (cases key) (simp_all add: Connect_def SendPacket_def writeFrame_def connWrite_def Let_def)

theorem Connect_reader_then_handshake_witness:
  "Connect (\<lambda>h p. Some freshConn) (Some idleManager) ''k'' None ''localhost'' 3000 =
     (None,
      Some \<lparr>conn = Some \<lparr>written = [0, 0, 0, 3, 0, 1, 107], writesLeft = None, connClosed = False\<rparr>,
            dm = None, wg = 1, cancelled = False\<rparr>,
      [Dial ''localhost'' 3000, StartReadLoop, Write [0, 0, 0, 3], Write [0, 1], Write [107]])"
  using Connect_reader_then_handshake [of "\<lambda>h p. Some freshConn" "''localhost''" 3000 freshConn
      idleManager "''k''" None]
  by (simp add: freshConn_def idleManager_def PutUint32_3)

text \<open>
  C10. \<^verbatim>\<open>NetworkManager.SendPacket\<close> on a manager without a dialed connection (or on a
  nil manager) and \<^verbatim>\<open>ClientConn.SendPacket\<close> on a handle without a socket (or on a nil
  handle) return an error, leave the receiver as it was and perform no write.
\<close>

theorem SendPacket_not_connected:
  "(conn m = None \<longrightarrow> SendPacket (Some m) ptype psub payload = (Some NotConnected, Some m, []))
   \<and> SendPacket None ptype psub payload = (Some NilManager, None, [])
   \<and> (cconn c = None \<longrightarrow>
        ClientConn_SendPacket (Some c) ptype psub payload = (Some ClientNotConnected, Some c, []))
   \<and> ClientConn_SendPacket None ptype psub payload = (Some ClientNotConnected, None, [])"
  by (simp add: SendPacket_def ClientConn_SendPacket_def)

theorem SendPacket_not_connected_witness:
  "SendPacket (Some idleManager) 1 0 [112, 111, 110, 103] = (Some NotConnected, Some idleManager, [])
   \<and> ClientConn_SendPacket (Some \<lparr>cconn = None\<rparr>) 1 0 [112, 111, 110, 103]
     = (Some ClientNotConnected, Some \<lparr>cconn = None\<rparr>, [])"
  using SendPacket_not_connected [of idleManager 1 0 "[112, 111, 110, 103]" "\<lparr>cconn = None\<rparr>"]
  by (simp add: idleManager_def)

section \<open>Properties of the registry\<close>

text \<open>
  C9. \<^verbatim>\<open>RegisterClass\<close> returns an error exactly when the class name is empty or the
  constructor is nil; with an error the manager is unchanged; for a non-empty name and a
  constructor it returns no error and the manager differs only in that the registry maps
  the name to that constructor.
\<close>

theorem RegisterClass_error_iff:
  "(fst (RegisterClass m cn ctor) \<noteq> None) = (cn = [] \<or> ctor = None)
   \<and> (fst (RegisterClass m cn ctor) \<noteq> None \<longrightarrow> snd (RegisterClass m cn ctor) = m)
   \<and> (\<forall>c. cn \<noteq> [] \<and> ctor = Some c \<longrightarrow>
          RegisterClass m cn ctor = (None, m\<lparr>registry := (registry m)(cn \<mapsto> c)\<rparr>)
          \<and> registry (snd (RegisterClass m cn ctor)) cn = Some c)"
  by (auto simp: RegisterClass_def split: option.splits)

theorem RegisterClass_error_iff_witness:
  "fst (RegisterClass \<lparr>registry = Map.empty, root = None\<rparr> ''Part'' (Some NewPart)) = None
   \<and> registry (snd (RegisterClass \<lparr>registry = Map.empty, root = None\<rparr> ''Part'' (Some NewPart))) ''Part''
       = Some NewPart
   \<and> fst (RegisterClass \<lparr>registry = Map.empty, root = None\<rparr> [] (Some NewPart)) \<noteq> None
   \<and> snd (RegisterClass \<lparr>registry = Map.empty, root = None\<rparr> [] (Some NewPart))
       = \<lparr>registry = Map.empty, root = None\<rparr>"
  using RegisterClass_error_iff [of "\<lparr>registry = Map.empty, root = None\<rparr>" "''Part''" "Some NewPart"]
    RegisterClass_error_iff [of "\<lparr>registry = Map.empty, root = None\<rparr>" "[]" "Some NewPart"]
  by simp

section \<open>Properties of the instance tree\<close>

lemma elems_simps: "elems None = []" "elems (Some xs) = xs"
  by (simp_all add: elems_def)

lemma elems_remove1: "elems (map_option (remove1 c) s) = remove1 c (elems s)"
  by (cases s) (simp_all add: elems_def)

lemma filter_neq_remove1: "filter (\<lambda>c. c \<noteq> x) (remove1 x xs) = filter (\<lambda>c. c \<noteq> x) xs"
  by (induction xs) auto

text \<open>
  C1, at a failing input. \<^verbatim>\<open>B := NewWerkzeug()\<close> and \<^verbatim>\<open>A := NewBaseInstance("Instance")\<close>:
  after \<^verbatim>\<open>A.SetParent(B)\<close> the parent of A is B, and the child list of B is empty.
\<close>

theorem SetParent_Werkzeug_parent_loses_child:
  "fst (NewWerkzeug emptyStore) = Some (PtrWerkzeug, 0)
   \<and> fst (NewBaseInstance ''Instance'' (snd (NewWerkzeug emptyStore))) = 1
   \<and> (\<exists>h. SetParent (heap workspaceAndNode) 1 (Some (PtrWerkzeug, 0)) = Inr h
          \<and> GetParent h 1 = Some (PtrWerkzeug, 0)
          \<and> GetChildren h 0 = [])"
  by (simp add: workspaceAndNode_def NewWerkzeug_def NewBaseInstance_def emptyStore_def Let_def
      SetParent_def GetParent_def GetChildren_def zeroBaseInstance_def elems_def)

lemma threeNodes_heap:
  "heap threeNodes = (\<lambda>_. zeroBaseInstance)
     (0 := zeroBaseInstance\<lparr>name := ''Instance'', className := ''Instance'', children := Some []\<rparr>,
      1 := zeroBaseInstance\<lparr>name := ''Instance'', className := ''Instance'', children := Some []\<rparr>,
      2 := zeroBaseInstance\<lparr>name := ''Instance'', className := ''Instance'', children := Some []\<rparr>)"
  by (simp add: threeNodes_def NewBaseInstance_def emptyStore_def Let_def numeral_2_eq_2)

lemma twoSiblings_fields:
  "parent (twoSiblings (Suc 0)) = Some (PtrBaseInstance, 0)"
  "children (twoSiblings 0) = Some [(PtrBaseInstance, 1), (PtrBaseInstance, 2)]"
  by (simp_all add: twoSiblings_def afterSetParent_def threeNodes_heap SetParent_def addChild_def
      removeChild_def zeroBaseInstance_def elems_def Let_def numeral_2_eq_2)

text \<open>
  C3, as the claim states it, fails: node 1 is the first of the two children of node 0;
  setting its parent to node 0 again returns with the child list in another order.
\<close>

theorem SetParent_same_parent_reorders_counterexample:
  "GetParent twoSiblings 1 = Some (PtrBaseInstance, 0)
   \<and> GetChildren twoSiblings 0 = [(PtrBaseInstance, 1), (PtrBaseInstance, 2)]
   \<and> (\<exists>h. SetParent twoSiblings 1 (Some (PtrBaseInstance, 0)) = Inr h
          \<and> GetChildren h 0 = [(PtrBaseInstance, 2), (PtrBaseInstance, 1)]
          \<and> GetChildren h 0 \<noteq> GetChildren twoSiblings 0)"
  by (simp add: GetParent_def GetChildren_def twoSiblings_fields SetParent_def addChild_def
      removeChild_def elems_def Let_def numeral_2_eq_2)

text \<open>
  C3, amended. For a node whose current parent is a \<^verbatim>\<open>*BaseInstance\<close> other than the node
  itself, setting the parent to it again returns; the parent's child list is the old one
  with the node's first occurrence cut out and the node appended. So the node is still
  a child of that parent and ends up last, the other children keep their order, the
  list has the same members as before when the node was in it, and every other child
  list is unchanged.
\<close>

theorem SetParent_same_parent_moves_last:
  assumes "parent (h b) = Some (PtrBaseInstance, p)" and "p \<noteq> b"
  shows "\<exists>h1. SetParent h b (Some (PtrBaseInstance, p)) = Inr h1
     \<and> GetChildren h1 p = remove1 (PtrBaseInstance, b) (GetChildren h p) @ [(PtrBaseInstance, b)]
     \<and> GetParent h1 b = Some (PtrBaseInstance, p)
     \<and> ((PtrBaseInstance, b) \<in> set (GetChildren h p) \<longrightarrow>
          mset (GetChildren h1 p) = mset (GetChildren h p))
     \<and> filter (\<lambda>c. c \<noteq> (PtrBaseInstance, b)) (GetChildren h1 p)
          = filter (\<lambda>c. c \<noteq> (PtrBaseInstance, b)) (GetChildren h p)
     \<and> (\<forall>q. q \<noteq> p \<longrightarrow> GetChildren h1 q = GetChildren h q)"
proof -
  let ?h1 = "addChild ((removeChild h p (PtrBaseInstance, b))
                (b := (removeChild h p (PtrBaseInstance, b) b)\<lparr>parent := Some (PtrBaseInstance, p)\<rparr>))
              p (PtrBaseInstance, b)"
  have run: "SetParent h b (Some (PtrBaseInstance, p)) = Inr ?h1"
    using assms by (simp add: SetParent_def Let_def)
  have kids: "GetChildren ?h1 p = remove1 (PtrBaseInstance, b) (GetChildren h p) @ [(PtrBaseInstance, b)]"
    using assms(2) by (simp add: GetChildren_def addChild_def removeChild_def elems_remove1 elems_simps)
  have par: "GetParent ?h1 b = Some (PtrBaseInstance, p)"
    using assms(2) by (simp add: GetParent_def addChild_def removeChild_def)
  have others: "\<forall>q. q \<noteq> p \<longrightarrow> GetChildren ?h1 q = GetChildren h q"
    by (simp add: GetChildren_def addChild_def removeChild_def)
  have members: "(PtrBaseInstance, b) \<in> set (GetChildren h p) \<longrightarrow>
      mset (GetChildren ?h1 p) = mset (GetChildren h p)"
    by (simp add: kids)
  have order: "filter (\<lambda>c. c \<noteq> (PtrBaseInstance, b)) (GetChildren ?h1 p)
      = filter (\<lambda>c. c \<noteq> (PtrBaseInstance, b)) (GetChildren h p)"
    by (simp add: kids filter_neq_remove1)
  from run kids par others members order show ?thesis by blast
qed

theorem SetParent_same_parent_moves_last_witness:
  "\<exists>h1. SetParent twoSiblings 1 (Some (PtrBaseInstance, 0)) = Inr h1
     \<and> GetChildren h1 0 = [(PtrBaseInstance, 2), (PtrBaseInstance, 1)]
     \<and> GetParent h1 1 = Some (PtrBaseInstance, 0)
     \<and> mset (GetChildren h1 0) = mset (GetChildren twoSiblings 0)"
  using SetParent_same_parent_moves_last [of twoSiblings 1 0]
  by (auto simp: twoSiblings_fields GetChildren_def elems_simps)

text \<open>
  C4, as the claim states it, fails at two registrations that \<^verbatim>\<open>RegisterClass\<close> accepts.
  Under the name Folder, the manager's own base constructor: the node made has class
  name Instance. Under the name Part, a constructor returning \<^verbatim>\<open>&Part{}\<close>: the node made
  keeps an empty class name and a nil child list.
\<close>

theorem Create_className_counterexample:
  "(\<exists>st. Create folderManager ''Folder'' emptyStore = (Some (PtrBaseInstance, 0), st)
          \<and> GetClassName (heap st) 0 = ''Instance'')
   \<and> (\<exists>st. Create (snd (RegisterClass NewInstanceManager ''Part'' (Some sloppyPartCtor))) ''Part'' emptyStore
              = (Some (PtrPart, 0), st)
          \<and> GetClassName (heap st) 0 = [] \<and> children (heap st 0) = None)"
  by (simp add: folderManager_def RegisterClass_def NewInstanceManager_def Create_def baseCtor_def
      NewBaseInstance_def emptyStore_def Let_def GetClassName_def sloppyPartCtor_def
      zeroBaseInstance_def)

text \<open>
  C4, amended. For a class registered under a non-empty name with a constructor that
  returns a \<^verbatim>\<open>*BaseInstance\<close>, \<^verbatim>\<open>Create\<close> returns that node with a child list that is
  not nil (the constructor's elements, none when it left the list nil) and a class name
  that is not empty: the constructor's when it set one, the registered name otherwise.
  When the constructor left both unset, the class name is the registered name and the
  child list is empty and not nil. Nothing else changes.
\<close>

theorem Create_backfills_BaseInstance:
  assumes "cn \<noteq> []" and "ctor st = (Some (PtrBaseInstance, b), st1)"
  shows "\<exists>st2. Create (snd (RegisterClass m cn (Some ctor))) cn st = (Some (PtrBaseInstance, b), st2)
     \<and> children (heap st2 b) = Some (elems (children (heap st1 b)))
     \<and> className (heap st2 b) = (if className (heap st1 b) = [] then cn else className (heap st1 b))
     \<and> className (heap st2 b) \<noteq> []
     \<and> (children (heap st1 b) = None \<and> className (heap st1 b) = [] \<longrightarrow>
          GetClassName (heap st2) b = cn \<and> children (heap st2 b) = Some [])
     \<and> name (heap st2 b) = name (heap st1 b) \<and> parent (heap st2 b) = parent (heap st1 b)
     \<and> nextAddr st2 = nextAddr st1
     \<and> (\<forall>a. a \<noteq> b \<longrightarrow> heap st2 a = heap st1 a)"
  using assms
  by (cases "children (heap st1 b)")
     (simp_all add: Create_def RegisterClass_def Let_def elems_simps GetClassName_def)

theorem Create_backfills_BaseInstance_witness:
  "\<exists>st2. Create (snd (RegisterClass NewInstanceManager ''Folder'' (Some sloppyBaseCtor))) ''Folder'' emptyStore
            = (Some (PtrBaseInstance, 0), st2)
     \<and> GetClassName (heap st2) 0 = ''Folder'' \<and> children (heap st2 0) = Some []"
  using Create_backfills_BaseInstance [of "''Folder''" sloppyBaseCtor emptyStore 0
      "\<lparr>heap = (heap emptyStore)(0 := zeroBaseInstance), nextAddr = Suc 0\<rparr>" NewInstanceManager]
  by (auto simp: sloppyBaseCtor_def emptyStore_def zeroBaseInstance_def)

lemma NewInstanceManager_Instance: "registry NewInstanceManager ''Instance'' = Some baseCtor"
  by (simp add: NewInstanceManager_def RegisterClass_def)

lemma pathStore_fields:
  "name (heap pathStore 0) = ''Root''" "name (heap pathStore (Suc 0)) = ''A''"
  "name (heap pathStore (Suc (Suc 0))) = ''B''"
  "children (heap pathStore 0) = Some [(PtrBaseInstance, Suc 0)]"
  "children (heap pathStore (Suc 0)) = Some [(PtrBaseInstance, Suc (Suc 0))]"
  "children (heap pathStore (Suc (Suc 0))) = Some []"
  by (simp_all add: pathStore_def CreateNamed_def Create_def NewInstanceManager_Instance baseCtor_def
      NewBaseInstance_def emptyStore_def Let_def SetName_def afterSetParent_def SetParent_def
      addChild_def removeChild_def zeroBaseInstance_def elems_simps)

lemma walkParts_None: "walkParts h None ps = None"
  by (cases ps) simp_all

lemma walkParts_resolve: "walkParts h (Some c) ps = resolveSegments h c ps"
  by (induction ps arbitrary: c) (auto simp: walkParts_None split: option.splits)

lemma splitDot_nonempty: "splitDot s \<noteq> []"
  by (induction s) (auto split: list.splits)

lemma splitDot_scenario:
  "splitDot ''Root.A.B'' = [''Root'', ''A'', ''B'']"
  "splitDot ''A.B'' = [''A'', ''B'']"
  "splitDot ''Root.A.C'' = [''Root'', ''A'', ''C'']"
  by simp_all

text \<open>
  Path lookup when the manager has a root. In the tree with root Root (node 0), its
  child A (node 1) and A's child B (node 2), the paths Root.A.B and A.B both resolve to
  node 2 and Root.A.C resolves to nil. With a root set and a non-empty path,
  \<^verbatim>\<open>FindByPath\<close> returns what segment-wise resolution through \<^verbatim>\<open>FindFirstChild\<close>
  gives: of the segments after the first, from the root, when the first segment is the
  root's name, and of all segments, from the root, otherwise.
\<close>

lemma FindByPath_segmentwise:
  "FindByPath pathManager (heap pathStore) ''Root.A.B'' = Inr (Some (PtrBaseInstance, 2))
   \<and> FindByPath pathManager (heap pathStore) ''A.B'' = Inr (Some (PtrBaseInstance, 2))
   \<and> FindByPath pathManager (heap pathStore) ''Root.A.C'' = Inr None
   \<and> GetName (heap pathStore) 0 = ''Root'' \<and> GetName (heap pathStore) 2 = ''B''
   \<and> GetChildren (heap pathStore) 0 = [(PtrBaseInstance, 1)]
   \<and> GetName (heap pathStore) 1 = ''A''
   \<and> GetChildren (heap pathStore) 1 = [(PtrBaseInstance, 2)]
   \<and> (root m = Some r \<and> path \<noteq> [] \<longrightarrow>
        FindByPath m h path =
          Inr (if GetName h (snd r) = hd (splitDot path) then resolveSegments h r (tl (splitDot path))
               else resolveSegments h r (splitDot path)))"
proof -
  have gen: "root m = Some r \<and> path \<noteq> [] \<longrightarrow>
        FindByPath m h path =
          Inr (if GetName h (snd r) = hd (splitDot path) then resolveSegments h r (tl (splitDot path))
               else resolveSegments h r (splitDot path))"
    using splitDot_nonempty [of path]
    by (cases "splitDot path")
       (auto simp: FindByPath_def GetRoot_def walkParts_resolve split: option.splits)
  have c1: "FindByPath pathManager (heap pathStore) ''Root.A.B'' = Inr (Some (PtrBaseInstance, 2))"
    by (simp add: FindByPath_def splitDot_scenario pathManager_def SetRoot_def GetRoot_def GetName_def
        FindFirstChild_def pathStore_fields elems_simps numeral_2_eq_2)
  have c2: "FindByPath pathManager (heap pathStore) ''A.B'' = Inr (Some (PtrBaseInstance, 2))"
    by (simp add: FindByPath_def splitDot_scenario pathManager_def SetRoot_def GetRoot_def GetName_def
        FindFirstChild_def pathStore_fields elems_simps numeral_2_eq_2)
  have c3: "FindByPath pathManager (heap pathStore) ''Root.A.C'' = Inr None"
    by (simp add: FindByPath_def splitDot_scenario pathManager_def SetRoot_def GetRoot_def GetName_def
        FindFirstChild_def pathStore_fields elems_simps numeral_2_eq_2)
  have shape: "GetName (heap pathStore) 0 = ''Root''" "GetName (heap pathStore) 2 = ''B''"
    "GetChildren (heap pathStore) 0 = [(PtrBaseInstance, 1)]"
    "GetName (heap pathStore) 1 = ''A''"
    "GetChildren (heap pathStore) 1 = [(PtrBaseInstance, 2)]"
    by (simp_all add: GetName_def GetChildren_def pathStore_fields elems_simps numeral_2_eq_2)
  from gen c1 c2 c3 shape show ?thesis by blast
qed

lemma FindByPath_segmentwise_at_scenario:
  "FindByPath pathManager (heap pathStore) ''Root.A.B''
     = Inr (resolveSegments (heap pathStore) (PtrBaseInstance, 0) [''A'', ''B''])
   \<and> FindByPath pathManager (heap pathStore) ''A.B''
     = Inr (resolveSegments (heap pathStore) (PtrBaseInstance, 0) [''A'', ''B''])
   \<and> resolveSegments (heap pathStore) (PtrBaseInstance, 0) [''A'', ''B''] = Some (PtrBaseInstance, 2)"
  using FindByPath_segmentwise [of pathManager "(PtrBaseInstance, 0)" "''Root.A.B''" "heap pathStore"]
    FindByPath_segmentwise [of pathManager "(PtrBaseInstance, 0)" "''A.B''" "heap pathStore"]
  by (simp add: pathManager_def SetRoot_def splitDot_scenario GetName_def pathStore_fields)

text \<open>
  C5, at a failing input. A manager as \<^verbatim>\<open>NewInstanceManager\<close> returns it has no root (the
  package's \<^verbatim>\<open>init\<close> creates a node named Root for the default manager and drops it
  without \<^verbatim>\<open>SetRoot\<close>). On such a manager, and on any manager without a root,
  \<^verbatim>\<open>FindByPath\<close> of a non-empty path does not return: \<^verbatim>\<open>GetRoot\<close> blocks on the
  manager's own lock before any segment is looked up.
\<close>

theorem FindByPath_without_root_never_returns:
  "root NewInstanceManager = None
   \<and> FindByPath NewInstanceManager h ''x'' = Inl Deadlock
   \<and> FindByPath NewInstanceManager h ''Root.A.B'' = Inl Deadlock
   \<and> FindByPath (m\<lparr>root := None\<rparr>) h (c # cs) = Inl Deadlock"
proof -
  have r: "root NewInstanceManager = None"
    by (simp add: NewInstanceManager_def RegisterClass_def)
  have g: "FindByPath (m\<lparr>root := None\<rparr>) h (c # cs) = Inl Deadlock"
    using splitDot_nonempty [of "c # cs"]
    by (cases "splitDot (c # cs)") (simp_all add: FindByPath_def GetRoot_def)
  have x: "FindByPath NewInstanceManager h ''x'' = Inl Deadlock"
    by (simp add: FindByPath_def GetRoot_def r)
  have p: "FindByPath NewInstanceManager h ''Root.A.B'' = Inl Deadlock"
    by (simp add: FindByPath_def GetRoot_def r splitDot_scenario)
  from r g x p show ?thesis by blast
qed

lemma partManager_registry:
  "registry partManager ''Instance'' = Some baseCtor" "registry partManager ''Part'' = Some NewPart"
  by (simp_all add: partManager_def NewInstanceManager_def RegisterClass_def)

lemma partStore_eq:
  "partStore = \<lparr>heap = (\<lambda>_. zeroBaseInstance)
      (0 := \<lparr>name = ''Instance'', parent = None, children = Some [(PtrBaseInstance, Suc 0)],
              className = ''Instance'', localId = [], this = None\<rparr>,
       Suc 0 := \<lparr>name = ''ExamplePart'', parent = Some (PtrBaseInstance, 0),
              children = Some [(PtrBaseInstance, Suc (Suc 0))],
              className = ''Part'', localId = [], this = Some (PtrPart, Suc 0)\<rparr>,
       Suc (Suc 0) := \<lparr>name = ''Instance'', parent = Some (PtrBaseInstance, Suc 0), children = Some [],
              className = ''Instance'', localId = [], this = None\<rparr>),
     nextAddr = 3\<rparr>"
  by (simp add: partStore_def Create_def partManager_registry baseCtor_def NewPart_def
      NewBaseInstance_def emptyStore_def Let_def afterSetParent_def SetParent_def
      addChild_def removeChild_def zeroBaseInstance_def elems_simps FindFirstChild_def GetName_def
      fun_upd_twist numeral_3_eq_3)

lemma partStore_fields:
  "name (heap partStore 0) = ''Instance''" "className (heap partStore 0) = ''Instance''"
  "children (heap partStore 0) = Some [(PtrBaseInstance, Suc 0)]"
  "name (heap partStore (Suc 0)) = ''ExamplePart''" "className (heap partStore (Suc 0)) = ''Part''"
  "children (heap partStore (Suc 0)) = Some [(PtrBaseInstance, Suc (Suc 0))]"
  "name (heap partStore (Suc (Suc 0))) = ''Instance''"
  "className (heap partStore (Suc (Suc 0))) = ''Instance''"
  "children (heap partStore (Suc (Suc 0))) = Some []"
  "nextAddr partStore = 3"
  by (simp_all add: partStore_eq)

lemma partStore_descendants:
  "GetDescendants 3 (heap partStore) 0 = Some [(PtrBaseInstance, 1), (PtrBaseInstance, 2)]"
  by (simp add: numeral_3_eq_3 numeral_2_eq_2 partStore_fields elems_simps appendAll_def)

text \<open>
  C7, at a failing input. The default manager has \<^verbatim>\<open>NewPart\<close> registered for Part. The
  source tree is a root (0) with a Part (1) that has one child (2). The clone of the root
  is node 3 with the descendant 4 only: the copy 4 of the Part has class name Part and
  no child, and the copy 5 of node 2 has its parent set to 4 without being in a child list.
\<close>

theorem Clone_registered_Part_loses_children:
  "GetDescendants 3 (heap partStore) 0 = Some [(PtrBaseInstance, 1), (PtrBaseInstance, 2)]
   \<and> GetClassName (heap partStore) 1 = ''Part''
   \<and> (\<exists>st. Clone 3 (Some partManager) partStore 0 = Some ((PtrBaseInstance, 3), st)
          \<and> GetDescendants 3 (heap st) 3 = Some [(PtrBaseInstance, 4)]
          \<and> GetClassName (heap st) 4 = ''Part''
          \<and> GetChildren (heap st) 4 = []
          \<and> GetParent (heap st) 5 = Some (PtrPart, 4))"
  apply (simp add: partStore_descendants GetClassName_def partStore_fields)
  apply (simp add: numeral_3_eq_3 numeral_2_eq_2 partStore_eq Create_def partManager_registry
      baseCtor_def NewPart_def NewBaseInstance_def Let_def SetParent_def SetName_def
      GetChildren_def GetParent_def addChild_def removeChild_def zeroBaseInstance_def
      elems_simps appendAll_def)
  done

subsection \<open>Destroy and the descendants of the nodes that remain\<close>

lemma childEdges_mono:
  assumes "\<forall>x. set (GetChildren h1 x) \<subseteq> set (GetChildren h x)"
  shows "childEdges h1 \<subseteq> childEdges h"
  using assms by (auto simp: childEdges_def)

lemma reachFrom_mono:
  assumes "\<forall>x. set (GetChildren h1 x) \<subseteq> set (GetChildren h x)" and "S \<subseteq> T"
  shows "reachFrom h1 S \<subseteq> reachFrom h T"
proof -
  have "(childEdges h1)\<^sup>* \<subseteq> (childEdges h)\<^sup>*"
    by (rule rtrancl_mono [OF childEdges_mono [OF assms(1)]])
  with assms(2) show ?thesis by (auto simp: reachFrom_def)
qed

lemma reachFrom_closed:
  "u \<in> reachFrom h S \<Longrightarrow> (u, v) \<in> (childEdges h)\<^sup>* \<Longrightarrow> v \<in> reachFrom h S"
  by (auto simp: reachFrom_def intro: rtrancl_trans)

lemma reachFrom_self: "s \<in> S \<Longrightarrow> s \<in> reachFrom h S"
  by (auto simp: reachFrom_def)

lemma reachFrom_Un: "reachFrom h (S \<union> T) = reachFrom h S \<union> reachFrom h T"
  by (auto simp: reachFrom_def)

lemma reachFrom_node:
  "reachFrom h {n} = insert n (reachFrom h (snd ` set (GetChildren h n)))"
proof
  show "reachFrom h {n} \<subseteq> insert n (reachFrom h (snd ` set (GetChildren h n)))"
  proof
    fix x assume "x \<in> reachFrom h {n}"
    then have "(n, x) \<in> (childEdges h)\<^sup>*" by (simp add: reachFrom_def)
    then show "x \<in> insert n (reachFrom h (snd ` set (GetChildren h n)))"
    proof (cases rule: converse_rtranclE)
      case base then show ?thesis by simp
    next
      case (step y)
      then have "y \<in> snd ` set (GetChildren h n)" by (simp add: childEdges_def)
      with step(2) show ?thesis by (auto simp: reachFrom_def)
    qed
  qed
next
  show "insert n (reachFrom h (snd ` set (GetChildren h n))) \<subseteq> reachFrom h {n}"
  proof -
    have "\<And>y x. y \<in> snd ` set (GetChildren h n) \<Longrightarrow> (y, x) \<in> (childEdges h)\<^sup>*
        \<Longrightarrow> (n, x) \<in> (childEdges h)\<^sup>*"
      by (rule converse_rtrancl_into_rtrancl) (simp_all add: childEdges_def)
    then show ?thesis by (auto simp: reachFrom_def)
  qed
qed

text \<open>A path whose end lies outside a closed set that contains the target of every removed
  edge survives the removal.\<close>

lemma path_survives:
  assumes path: "(s, x) \<in> (childEdges h)\<^sup>*"
    and out: "x \<notin> R"
    and closed: "\<And>u v. u \<in> R \<Longrightarrow> (u, v) \<in> (childEdges h)\<^sup>* \<Longrightarrow> v \<in> R"
    and removed: "\<And>u v. (u, v) \<in> childEdges h \<Longrightarrow> (u, v) \<notin> childEdges h1 \<Longrightarrow> v \<in> R"
  shows "(s, x) \<in> (childEdges h1)\<^sup>*"
  using path out
proof (induction rule: converse_rtrancl_induct)
  case base
  show ?case by simp
next
  case (step u v)
  have "(u, v) \<in> childEdges h1"
  proof (rule ccontr)
    assume "(u, v) \<notin> childEdges h1"
    with step(1) have "v \<in> R" by (rule removed)
    then have "x \<in> R" using step(2) by (rule closed)
    with step(4) show False by simp
  qed
  moreover have "(v, x) \<in> (childEdges h1)\<^sup>*" using step by simp
  ultimately show ?case by (rule converse_rtrancl_into_rtrancl)
qed

lemma removed_edge_target:
  assumes "\<forall>u c. c \<in> set (GetChildren h u) \<longrightarrow> c \<notin> set (GetChildren h1 u) \<longrightarrow> snd c \<in> R"
    and "(u, v) \<in> childEdges h" and "(u, v) \<notin> childEdges h1"
  shows "v \<in> R"
proof -
  from assms(2) obtain c where c: "c \<in> set (GetChildren h u)" "snd c = v"
    by (auto simp: childEdges_def)
  with assms(3) have "c \<notin> set (GetChildren h1 u)" by (auto simp: childEdges_def)
  with assms(1) c show ?thesis by blast
qed

lemma destroyPostD:
  assumes "destroyPost h R h1"
  shows "set (GetChildren h1 x) \<subseteq> set (GetChildren h x)"
    and "distinct (GetChildren h x) \<Longrightarrow> distinct (GetChildren h1 x)"
    and "x \<in> R \<Longrightarrow> GetChildren h1 x = []"
    and "c \<in> set (GetChildren h u) \<Longrightarrow> c \<notin> set (GetChildren h1 u) \<Longrightarrow> snd c \<in> R"
    and "x \<notin> R \<Longrightarrow> parent (h1 x) = parent (h x)"
  using assms unfolding destroyPost_def by blast+

lemma destroyPost_refl: "destroyPost h {} h"
  by (simp add: destroyPost_def)

lemma destroyPost_seq:
  assumes p1: "destroyPost h (reachFrom h S) h1" and p2: "destroyPost h1 (reachFrom h1 T) h2"
  shows "destroyPost h (reachFrom h (S \<union> T)) h2"
proof -
  have sub1: "\<forall>x. set (GetChildren h1 x) \<subseteq> set (GetChildren h x)"
    and sub2: "\<forall>x. set (GetChildren h2 x) \<subseteq> set (GetChildren h1 x)"
    using p1 p2 by (simp_all add: destroyPost_def)
  have T_mono: "reachFrom h1 T \<subseteq> reachFrom h T"
    by (rule reachFrom_mono [OF sub1]) simp
  have a1: "\<forall>x. set (GetChildren h2 x) \<subseteq> set (GetChildren h x)"
    using sub1 sub2 by blast
  have a2: "\<forall>x. distinct (GetChildren h x) \<longrightarrow> distinct (GetChildren h2 x)"
    using p1 p2 by (simp add: destroyPost_def)
  have b: "\<forall>x\<in>reachFrom h (S \<union> T). GetChildren h2 x = []"
  proof
    fix x assume x: "x \<in> reachFrom h (S \<union> T)"
    show "GetChildren h2 x = []"
    proof (cases "x \<in> reachFrom h S")
      case True
      with p1 have "GetChildren h1 x = []" by (simp add: destroyPost_def)
      with sub2 have "set (GetChildren h2 x) \<subseteq> {}" by (metis set_empty)
      then show ?thesis by simp
    next
      case False
      with x obtain t where t: "t \<in> T" "(t, x) \<in> (childEdges h)\<^sup>*"
        by (auto simp: reachFrom_def)
      have "(t, x) \<in> (childEdges h1)\<^sup>*"
      proof (rule path_survives [OF t(2) False])
        fix u v assume "u \<in> reachFrom h S" "(u, v) \<in> (childEdges h)\<^sup>*"
        then show "v \<in> reachFrom h S" by (rule reachFrom_closed)
      next
        fix u v assume "(u, v) \<in> childEdges h" "(u, v) \<notin> childEdges h1"
        then show "v \<in> reachFrom h S"
          using destroyPostD(4) [OF p1] removed_edge_target [of h h1 "reachFrom h S" u v] by blast
      qed
      with t(1) have "x \<in> reachFrom h1 T" by (auto simp: reachFrom_def)
      with p2 show ?thesis by (simp add: destroyPost_def)
    qed
  qed
  have d: "\<forall>u c. c \<in> set (GetChildren h u) \<longrightarrow> c \<notin> set (GetChildren h2 u) \<longrightarrow> snd c \<in> reachFrom h (S \<union> T)"
  proof (intro allI impI)
    fix u c assume c: "c \<in> set (GetChildren h u)" "c \<notin> set (GetChildren h2 u)"
    show "snd c \<in> reachFrom h (S \<union> T)"
    proof (cases "c \<in> set (GetChildren h1 u)")
      case True
      then have "snd c \<in> reachFrom h1 T" using c(2) by (rule destroyPostD(4) [OF p2])
      with T_mono show ?thesis by (auto simp: reachFrom_Un)
    next
      case False
      with c(1) have "snd c \<in> reachFrom h S" by (rule destroyPostD(4) [OF p1])
      then show ?thesis by (simp add: reachFrom_Un)
    qed
  qed
  have e: "\<forall>x. x \<notin> reachFrom h (S \<union> T) \<longrightarrow> parent (h2 x) = parent (h x)"
  proof (intro allI impI)
    fix x assume x: "x \<notin> reachFrom h (S \<union> T)"
    then have "x \<notin> reachFrom h S" "x \<notin> reachFrom h1 T"
      using T_mono by (auto simp: reachFrom_Un)
    with p1 p2 show "parent (h2 x) = parent (h x)" by (simp add: destroyPost_def)
  qed
  from a1 a2 b d e show ?thesis unfolding destroyPost_def by blast
qed


lemma GetChildren_removeChild:
  "GetChildren (removeChild h p c) x = (if x = p then remove1 c (GetChildren h p) else GetChildren h x)"
  by (simp add: GetChildren_def removeChild_def elems_remove1)

lemma GetChildren_removeChild_subset:
  "set (GetChildren (removeChild h p c) x) \<subseteq> set (GetChildren h x)"
  by (simp add: GetChildren_removeChild set_remove1_subset)

lemma GetChildren_removeChild_gone:
  assumes "c \<in> set (GetChildren h u)" and "c \<notin> set (GetChildren (removeChild h p d) u)"
  shows "c = d"
proof (rule ccontr)
  assume "c \<noteq> d"
  then have "c \<in> set (remove1 d (GetChildren h u))" using assms(1) by simp
  with assms show False by (simp add: GetChildren_removeChild split: if_splits)
qed

lemma parent_removeChild: "parent (removeChild h p c x) = parent (h x)"
  by (simp add: removeChild_def)

lemma reachFrom_empty: "reachFrom h {} = {}"
  by (simp add: reachFrom_def)

lemma forEachChild_post:
  assumes IH: "\<And>h n h1. Destroy f h n = Some h1 \<Longrightarrow> destroyPost h (reachFrom h {n}) h1"
    and run: "forEachChild (Destroy f) h cs = Some h1"
  shows "destroyPost h (reachFrom h (snd ` set cs)) h1"
  using run
proof (induction cs arbitrary: h)
  case Nil
  then show ?case by (simp add: reachFrom_empty destroyPost_refl)
next
  case (Cons c cs)
  from Cons.prems obtain hm where hm: "Destroy f h (snd c) = Some hm"
    and rest: "forEachChild (Destroy f) hm cs = Some h1"
    by (auto split: option.splits)
  have "destroyPost h (reachFrom h ({snd c} \<union> snd ` set cs)) h1"
    by (rule destroyPost_seq [OF IH [OF hm] Cons.IH [OF rest]])
  then show ?case by simp
qed

lemma finish_post:
  assumes pL: "destroyPost h (reachFrom h (snd ` set (GetChildren h n))) hL"
    and h2: "h2 = hL \<or> (\<exists>p. h2 = removeChild hL p (PtrBaseInstance, n))"
    and h1: "h1 = h2(n := (h2 n)\<lparr>parent := None, children := None\<rparr>)"
  shows "destroyPost h (reachFrom h {n}) h1"
proof -
  let ?K = "reachFrom h (snd ` set (GetChildren h n))"
  have kids1: "\<And>x. GetChildren h1 x = (if x = n then [] else GetChildren h2 x)"
    by (simp add: h1 GetChildren_def elems_simps)
  have par1: "\<And>x. parent (h1 x) = (if x = n then None else parent (h2 x))"
    by (simp add: h1)
  have sub2: "\<And>x. set (GetChildren h2 x) \<subseteq> set (GetChildren hL x)"
    using h2 GetChildren_removeChild_subset by blast
  have dist2: "\<And>x. distinct (GetChildren hL x) \<Longrightarrow> distinct (GetChildren h2 x)"
    using h2 by (auto simp: GetChildren_removeChild)
  have par2: "\<And>x. parent (h2 x) = parent (hL x)"
    using h2 by (auto simp: parent_removeChild)
  have gone2: "\<And>u c. c \<in> set (GetChildren hL u) \<Longrightarrow> c \<notin> set (GetChildren h2 u) \<Longrightarrow> snd c = n"
    using h2 GetChildren_removeChild_gone by fastforce
  have a1: "\<forall>x. set (GetChildren h1 x) \<subseteq> set (GetChildren h x)"
    using sub2 destroyPostD(1) [OF pL] by (auto simp: kids1)
  have a2: "\<forall>x. distinct (GetChildren h x) \<longrightarrow> distinct (GetChildren h1 x)"
    using dist2 destroyPostD(2) [OF pL] by (auto simp: kids1)
  have b: "\<forall>x\<in>reachFrom h {n}. GetChildren h1 x = []"
  proof
    fix x assume "x \<in> reachFrom h {n}"
    then have "x = n \<or> x \<in> ?K" by (simp add: reachFrom_node)
    then show "GetChildren h1 x = []"
    proof
      assume "x = n" then show ?thesis by (simp add: kids1)
    next
      assume "x \<in> ?K"
      then have "GetChildren hL x = []" by (rule destroyPostD(3) [OF pL])
      with sub2 [of x] have "GetChildren h2 x = []" by simp
      then show ?thesis by (simp add: kids1)
    qed
  qed
  have d: "\<forall>u c. c \<in> set (GetChildren h u) \<longrightarrow> c \<notin> set (GetChildren h1 u) \<longrightarrow> snd c \<in> reachFrom h {n}"
  proof (intro allI impI)
    fix u c assume c: "c \<in> set (GetChildren h u)" "c \<notin> set (GetChildren h1 u)"
    show "snd c \<in> reachFrom h {n}"
    proof (cases "u = n")
      case True
      with c(1) have "snd c \<in> ?K" by (auto intro: reachFrom_self)
      then show ?thesis by (simp add: reachFrom_node)
    next
      case False
      with c(2) have c2: "c \<notin> set (GetChildren h2 u)" by (simp add: kids1)
      show ?thesis
      proof (cases "c \<in> set (GetChildren hL u)")
        case True
        then have "snd c = n" using c2 by (rule gone2)
        then show ?thesis by (simp add: reachFrom_node)
      next
        case False
        with c(1) have "snd c \<in> ?K" by (rule destroyPostD(4) [OF pL])
        then show ?thesis by (simp add: reachFrom_node)
      qed
    qed
  qed
  have e: "\<forall>x. x \<notin> reachFrom h {n} \<longrightarrow> parent (h1 x) = parent (h x)"
  proof (intro allI impI)
    fix x assume "x \<notin> reachFrom h {n}"
    then have "x \<noteq> n" "x \<notin> ?K" by (simp_all add: reachFrom_node)
    then show "parent (h1 x) = parent (h x)"
      using destroyPostD(5) [OF pL] by (simp add: par1 par2)
  qed
  from a1 a2 b d e show ?thesis unfolding destroyPost_def by blast
qed

lemma Destroy_Suc_cases:
  assumes "Destroy (Suc f) h n = Some h1"
  obtains hL h2 where "forEachChild (Destroy f) h (GetChildren h n) = Some hL"
    and "h2 = (case parent (hL n) of None \<Rightarrow> hL
               | Some (ty, p) \<Rightarrow> if ty = PtrBaseInstance then removeChild hL p (PtrBaseInstance, n) else hL)"
    and "h1 = h2(n := (h2 n)\<lparr>parent := None, children := None\<rparr>)"
  using assms by (auto simp: GetChildren_def Let_def split: option.splits)

lemma Destroy_post:
  "Destroy f h n = Some h1 \<Longrightarrow> destroyPost h (reachFrom h {n}) h1"
proof (induction f arbitrary: h n h1)
  case 0
  then show ?case by simp
next
  case (Suc f)
  from Suc.prems obtain hL h2 where
    loop: "forEachChild (Destroy f) h (GetChildren h n) = Some hL"
    and h2: "h2 = (case parent (hL n) of None \<Rightarrow> hL
               | Some (ty, p) \<Rightarrow> if ty = PtrBaseInstance then removeChild hL p (PtrBaseInstance, n) else hL)"
    and h1: "h1 = h2(n := (h2 n)\<lparr>parent := None, children := None\<rparr>)"
    by (rule Destroy_Suc_cases)
  have pL: "destroyPost h (reachFrom h (snd ` set (GetChildren h n))) hL"
    by (rule forEachChild_post [OF Suc.IH loop])
  have "h2 = hL \<or> (\<exists>p. h2 = removeChild hL p (PtrBaseInstance, n))"
    using h2 by (auto split: option.splits)
  then show ?case using h1 by (rule finish_post [OF pL])
qed


lemma ranked_mono:
  assumes "ranked h rank" and "\<forall>x. set (GetChildren h1 x) \<subseteq> set (GetChildren h x)"
  shows "ranked h1 rank"
  using assms unfolding ranked_def by blast

lemma ranked_path:
  assumes "ranked h rank" and "(u, x) \<in> (childEdges h)\<^sup>*"
  shows "rank x \<le> rank u"
  using assms(2)
proof (induction rule: rtrancl_induct)
  case base
  show ?case by simp
next
  case (step y z)
  from step(2) assms(1) have "rank z < rank y"
    by (auto simp: childEdges_def ranked_def)
  with step(3) show ?case by simp
qed

lemma forEachChild_terminates:
  assumes IH: "\<And>h n. ranked h rank \<Longrightarrow> rank n < f \<Longrightarrow> \<exists>h1. Destroy f h n = Some h1"
    and "ranked h rank" and "\<forall>c\<in>set cs. rank (snd c) < f"
  shows "\<exists>h1. forEachChild (Destroy f) h cs = Some h1"
  using assms(2,3)
proof (induction cs arbitrary: h)
  case Nil
  show ?case by simp
next
  case (Cons c cs)
  from Cons.prems obtain hm where hm: "Destroy f h (snd c) = Some hm"
    using IH [of h "snd c"] by auto
  have "ranked hm rank"
    using Cons.prems(1) destroyPostD(1) [OF Destroy_post [OF hm]] by (blast intro: ranked_mono)
  then obtain h1 where "forEachChild (Destroy f) hm cs = Some h1"
    using Cons.IH Cons.prems(2) by auto
  with hm show ?case by simp
qed

lemma Destroy_terminates:
  "ranked h rank \<Longrightarrow> rank n < f \<Longrightarrow> \<exists>h1. Destroy f h n = Some h1"
proof (induction f arbitrary: h n)
  case 0
  then show ?case by simp
next
  case (Suc f)
  have "\<forall>c\<in>set (GetChildren h n). rank (snd c) < f"
    using Suc.prems by (fastforce simp: ranked_def)
  then obtain hL where "forEachChild (Destroy f) h (GetChildren h n) = Some hL"
    using forEachChild_terminates [of rank f h "GetChildren h n"] Suc.IH Suc.prems(1) by blast
  then show ?case by (simp add: GetChildren_def Let_def)
qed

lemma appendAll_Nil: "appendAll [] = Some []"
  by (simp add: appendAll_def)

lemma appendAll_Cons:
  "appendAll (r # rs) =
     (case r of None \<Rightarrow> None | Some ys \<Rightarrow> map_option ((@) ys) (appendAll rs))"
  by (cases r; cases "those rs") (simp_all add: appendAll_def)

lemma appendAll_map_elem:
  assumes "appendAll (map g cs) = Some ds" and "y \<in> set ds"
  shows "\<exists>c ys. c \<in> set cs \<and> g c = Some ys \<and> y \<in> set ys"
  using assms
proof (induction cs arbitrary: ds)
  case Nil
  then show ?case by (simp add: appendAll_Nil)
next
  case (Cons c cs)
  from Cons.prems(1) obtain ys zs where parts: "g c = Some ys" "appendAll (map g cs) = Some zs"
    "ds = ys @ zs"
    by (auto simp: appendAll_Cons split: option.splits)
  with Cons.prems(2) have "y \<in> set ys \<or> y \<in> set zs" by simp
  then show ?case
  proof
    assume "y \<in> set ys" with parts(1) show ?thesis by auto
  next
    assume "y \<in> set zs"
    from Cons.IH [OF parts(2) this] show ?thesis by auto
  qed
qed

lemma appendAll_map_total:
  assumes "\<forall>c\<in>set cs. \<exists>ys. g c = Some ys"
  shows "\<exists>ds. appendAll (map g cs) = Some ds"
  using assms by (induction cs) (auto simp: appendAll_Nil appendAll_Cons)

lemma getDescendantsInterface_sound:
  "getDescendantsInterface f h inst = Some ds \<Longrightarrow> y \<in> set ds
     \<Longrightarrow> (snd inst, snd y) \<in> (childEdges h)\<^sup>+"
proof (induction f arbitrary: inst ds y)
  case 0
  then show ?case by simp
next
  case (Suc f)
  let ?g = "\<lambda>child. map_option (\<lambda>ds. child # ds) (getDescendantsInterface f h child)"
  from Suc.prems have "appendAll (map ?g (GetChildren h (snd inst))) = Some ds" by simp
  from appendAll_map_elem [OF this Suc.prems(2)]
  obtain c ys where c: "c \<in> set (GetChildren h (snd inst))"
    and ys: "?g c = Some ys" and y: "y \<in> set ys"
    by blast
  from ys obtain zs where zs: "getDescendantsInterface f h c = Some zs" "ys = c # zs" by auto
  have edge: "(snd inst, snd c) \<in> childEdges h" using c by (auto simp: childEdges_def)
  from y zs(2) have "y = c \<or> y \<in> set zs" by simp
  then show ?case
  proof
    assume "y = c" with edge show ?thesis by auto
  next
    assume "y \<in> set zs"
    from Suc.IH [OF zs(1) this] edge show ?thesis by (rule trancl_into_trancl2 [rotated])
  qed
qed

lemma GetDescendants_sound:
  "GetDescendants f h a = Some ds \<Longrightarrow> y \<in> set ds \<Longrightarrow> (a, snd y) \<in> (childEdges h)\<^sup>+"
proof (induction f arbitrary: a ds y)
  case 0
  then show ?case by simp
next
  case (Suc f)
  let ?g = "\<lambda>child. map_option (\<lambda>ds. child # ds)
              (if fst child = PtrBaseInstance then GetDescendants f h (snd child)
               else getDescendantsInterface f h child)"
  from Suc.prems have "appendAll (map ?g (GetChildren h a)) = Some ds"
    by (simp add: GetChildren_def)
  from appendAll_map_elem [OF this Suc.prems(2)]
  obtain c ys where c: "c \<in> set (GetChildren h a)" and ys: "?g c = Some ys" and y: "y \<in> set ys"
    by blast
  from ys obtain zs where zs: "(if fst c = PtrBaseInstance then GetDescendants f h (snd c)
               else getDescendantsInterface f h c) = Some zs" "ys = c # zs" by auto
  have edge: "(a, snd c) \<in> childEdges h" using c by (auto simp: childEdges_def)
  from y zs(2) have "y = c \<or> y \<in> set zs" by simp
  then show ?case
  proof
    assume "y = c" with edge show ?thesis by auto
  next
    assume yz: "y \<in> set zs"
    have "(snd c, snd y) \<in> (childEdges h)\<^sup>+"
    proof (cases "fst c = PtrBaseInstance")
      case True
      with zs(1) have "GetDescendants f h (snd c) = Some zs" by simp
      from Suc.IH [OF this yz] show ?thesis .
    next
      case False
      with zs(1) have "getDescendantsInterface f h c = Some zs" by simp
      from getDescendantsInterface_sound [OF this yz] show ?thesis .
    qed
    with edge show ?thesis by (rule trancl_into_trancl2)
  qed
qed

lemma getDescendantsInterface_terminates:
  "ranked h rank \<Longrightarrow> rank (snd inst) < f \<Longrightarrow> \<exists>ds. getDescendantsInterface f h inst = Some ds"
proof (induction f arbitrary: inst)
  case 0
  then show ?case by simp
next
  case (Suc f)
  have "\<forall>c\<in>set (GetChildren h (snd inst)).
      \<exists>ys. map_option (\<lambda>ds. c # ds) (getDescendantsInterface f h c) = Some ys"
  proof
    fix c assume "c \<in> set (GetChildren h (snd inst))"
    with Suc.prems have "rank (snd c) < f" by (fastforce simp: ranked_def)
    from Suc.IH [OF Suc.prems(1) this] show
      "\<exists>ys. map_option (\<lambda>ds. c # ds) (getDescendantsInterface f h c) = Some ys" by auto
  qed
  from appendAll_map_total [OF this] show ?case by simp
qed

lemma GetDescendants_terminates:
  "ranked h rank \<Longrightarrow> rank a < f \<Longrightarrow> \<exists>ds. GetDescendants f h a = Some ds"
proof (induction f arbitrary: a)
  case 0
  then show ?case by simp
next
  case (Suc f)
  let ?g = "\<lambda>child. map_option (\<lambda>ds. child # ds)
              (if fst child = PtrBaseInstance then GetDescendants f h (snd child)
               else getDescendantsInterface f h child)"
  have "\<forall>c\<in>set (GetChildren h a). \<exists>ys. ?g c = Some ys"
  proof
    fix c assume "c \<in> set (GetChildren h a)"
    with Suc.prems have r: "rank (snd c) < f" by (fastforce simp: ranked_def)
    from Suc.IH [OF Suc.prems(1) r] getDescendantsInterface_terminates [OF Suc.prems(1), of c f] r
    show "\<exists>ys. ?g c = Some ys" by auto
  qed
  from appendAll_map_total [OF this] show ?case by (simp add: GetChildren_def)
qed


lemma treeInvariant_unique_parent:
  assumes "treeInvariant h" and "(u, v) \<in> childEdges h" and "(w, v) \<in> childEdges h"
  shows "u = w"
proof -
  from assms(2) obtain c where c: "c \<in> set (GetChildren h u)" "snd c = v"
    by (auto simp: childEdges_def)
  from assms(3) obtain d where d: "d \<in> set (GetChildren h w)" "snd d = v"
    by (auto simp: childEdges_def)
  from assms(1) c have "parent (h v) = Some (PtrBaseInstance, u)"
    unfolding treeInvariant_def by blast
  moreover from assms(1) d have "parent (h v) = Some (PtrBaseInstance, w)"
    unfolding treeInvariant_def by blast
  ultimately show ?thesis by simp
qed

lemma Destroy_no_edge_into_root:
  assumes inv: "treeInvariant h" and rk: "ranked h rank" and run: "Destroy f h n = Some h1"
  shows "(q, n) \<notin> childEdges h1"
proof
  assume edge1: "(q, n) \<in> childEdges h1"
  from run obtain f' where f: "f = Suc f'" by (cases f) auto
  from run [unfolded f] obtain hL h2 where
    loop: "forEachChild (Destroy f') h (GetChildren h n) = Some hL"
    and h2: "h2 = (case parent (hL n) of None \<Rightarrow> hL
               | Some (ty, p) \<Rightarrow> if ty = PtrBaseInstance then removeChild hL p (PtrBaseInstance, n) else hL)"
    and h1: "h1 = h2(n := (h2 n)\<lparr>parent := None, children := None\<rparr>)"
    by (rule Destroy_Suc_cases)
  let ?K = "reachFrom h (snd ` set (GetChildren h n))"
  have pL: "destroyPost h ?K hL"
    by (rule forEachChild_post [OF Destroy_post loop])
  have "n \<notin> ?K"
  proof
    assume "n \<in> ?K"
    then obtain c where c: "c \<in> set (GetChildren h n)" "(snd c, n) \<in> (childEdges h)\<^sup>*"
      by (auto simp: reachFrom_def)
    from ranked_path [OF rk c(2)] have "rank n \<le> rank (snd c)" .
    moreover from rk c(1) have "rank (snd c) < rank n" by (auto simp: ranked_def)
    ultimately show False by simp
  qed
  then have parL: "parent (hL n) = parent (h n)" by (rule destroyPostD(5) [OF pL])
  from edge1 obtain c where c1: "c \<in> set (GetChildren h1 q)" "snd c = n"
    by (auto simp: childEdges_def)
  have qn: "q \<noteq> n" using c1(1) by (auto simp: h1 GetChildren_def elems_simps)
  then have c2: "c \<in> set (GetChildren h2 q)" using c1(1) by (simp add: h1 GetChildren_def)
  have sub2: "set (GetChildren h2 q) \<subseteq> set (GetChildren hL q)"
    using h2 GetChildren_removeChild_subset by (auto split: option.splits)
  with c2 have cL: "c \<in> set (GetChildren hL q)" by blast
  with destroyPostD(1) [OF pL] have c0: "c \<in> set (GetChildren h q)" by blast
  with inv c1(2) have tag: "fst c = PtrBaseInstance" and par: "parent (h n) = Some (PtrBaseInstance, q)"
    unfolding treeInvariant_def by blast+
  from tag c1(2) have ceq: "c = (PtrBaseInstance, n)" by (cases c) simp
  from inv have "distinct (GetChildren h q)" unfolding treeInvariant_def by blast
  then have "distinct (GetChildren hL q)" by (rule destroyPostD(2) [OF pL])
  moreover have "h2 = removeChild hL q (PtrBaseInstance, n)"
    using h2 parL par by simp
  ultimately have "(PtrBaseInstance, n) \<notin> set (GetChildren h2 q)"
    by (simp add: GetChildren_removeChild)
  with c2 ceq show False by simp
qed

lemma edge_into_root_exists:
  assumes path1: "(a, d) \<in> (childEdges h1)\<^sup>*"
    and sub: "childEdges h1 \<subseteq> childEdges h"
    and uniq: "\<And>u v w. (u, v) \<in> childEdges h \<Longrightarrow> (w, v) \<in> childEdges h \<Longrightarrow> u = w"
    and below: "(n, d) \<in> (childEdges h)\<^sup>*"
    and outside: "(n, a) \<notin> (childEdges h)\<^sup>*"
  shows "\<exists>q. (q, n) \<in> childEdges h1"
  using path1 below
proof (induction rule: rtrancl_induct)
  case base
  with outside show ?case by simp
next
  case (step y z)
  from step.prems show ?case
  proof (cases rule: rtranclE)
    case base
    with step.hyps(2) show ?thesis by auto
  next
    case (step y')
    from step.hyps(2) sub have "(y, z) \<in> childEdges h" by blast
    with step(2) have "y' = y" by (rule uniq)
    with step(1) step.IH show ?thesis by simp
  qed
qed

text \<open>
  C6. Let the heap satisfy the tree invariant (every child list has distinct entries,
  all held as \<^verbatim>\<open>*BaseInstance\<close>, and every entry's parent pointer names the node whose
  list it is in) and let the child links be acyclic (some rank decreases along them).
  Then \<^verbatim>\<open>Destroy\<close> on a node \<open>n\<close> returns, given fuel above the rank of \<open>n\<close>, and in the
  heap it leaves \<^verbatim>\<open>GetDescendants\<close> of any node \<open>a\<close> returns a list that holds neither
  \<open>n\<close> nor any node that \<^verbatim>\<open>GetDescendants\<close> of \<open>n\<close> listed before the call.
\<close>

theorem Destroy_removes_subtree:
  assumes inv: "treeInvariant h" and rk: "ranked h rank"
    and before: "GetDescendants fd h n = Some dsN"
    and fuel: "rank n < f" "rank a < g"
  shows "\<exists>h1 ds. Destroy f h n = Some h1 \<and> GetDescendants g h1 a = Some ds
     \<and> n \<notin> snd ` set ds \<and> snd ` set ds \<inter> snd ` set dsN = {}"
proof -
  from Destroy_terminates [OF rk fuel(1)] obtain h1 where run: "Destroy f h n = Some h1" by blast
  have post: "destroyPost h (reachFrom h {n}) h1" by (rule Destroy_post [OF run])
  have sub: "\<forall>x. set (GetChildren h1 x) \<subseteq> set (GetChildren h x)"
    using destroyPostD(1) [OF post] by blast
  have rk1: "ranked h1 rank" by (rule ranked_mono [OF rk sub])
  from GetDescendants_terminates [OF rk1 fuel(2)] obtain ds
    where ds: "GetDescendants g h1 a = Some ds" by blast
  have gone: "snd y \<noteq> d" if y: "y \<in> set ds" and d: "(n, d) \<in> (childEdges h)\<^sup>*" for y d
  proof
    assume eq: "snd y = d"
    from GetDescendants_sound [OF ds y] eq have plus: "(a, d) \<in> (childEdges h1)\<^sup>+" by simp
    show False
    proof (cases "(n, a) \<in> (childEdges h)\<^sup>*")
      case True
      then have "a \<in> reachFrom h {n}" by (simp add: reachFrom_def)
      then have "GetChildren h1 a = []" by (rule destroyPostD(3) [OF post])
      moreover from plus obtain z where "(a, z) \<in> childEdges h1" by (auto dest: tranclD)
      ultimately show False by (simp add: childEdges_def)
    next
      case False
      have "\<exists>q. (q, n) \<in> childEdges h1"
      proof (rule edge_into_root_exists [OF _ childEdges_mono [OF sub] _ d False])
        from plus show "(a, d) \<in> (childEdges h1)\<^sup>*" by (rule trancl_into_rtrancl)
      next
        fix u v w assume "(u, v) \<in> childEdges h" "(w, v) \<in> childEdges h"
        then show "u = w" by (rule treeInvariant_unique_parent [OF inv])
      qed
      with Destroy_no_edge_into_root [OF inv rk run] show False by blast
    qed
  qed
  have "n \<notin> snd ` set ds" using gone [of _ n] by auto
  moreover have "snd ` set ds \<inter> snd ` set dsN = {}"
  proof -
    have "(n, snd z) \<in> (childEdges h)\<^sup>*" if "z \<in> set dsN" for z
      using GetDescendants_sound [OF before that] by (rule trancl_into_rtrancl)
    with gone show ?thesis by force
  qed
  ultimately show ?thesis using run ds by blast
qed


lemma pathStore_heap:
  "heap pathStore = (\<lambda>_. zeroBaseInstance)
      (0 := \<lparr>name = ''Root'', parent = None, children = Some [(PtrBaseInstance, Suc 0)],
              className = ''Instance'', localId = [], this = None\<rparr>,
       Suc 0 := \<lparr>name = ''A'', parent = Some (PtrBaseInstance, 0),
              children = Some [(PtrBaseInstance, Suc (Suc 0))],
              className = ''Instance'', localId = [], this = None\<rparr>,
       Suc (Suc 0) := \<lparr>name = ''B'', parent = Some (PtrBaseInstance, Suc 0), children = Some [],
              className = ''Instance'', localId = [], this = None\<rparr>)"
  by (simp add: pathStore_def CreateNamed_def Create_def NewInstanceManager_Instance baseCtor_def
      NewBaseInstance_def emptyStore_def Let_def SetName_def afterSetParent_def SetParent_def
      addChild_def removeChild_def zeroBaseInstance_def elems_simps fun_upd_twist)

lemma pathStore_treeInvariant: "treeInvariant (heap pathStore)"
  by (simp add: treeInvariant_def GetChildren_def pathStore_heap elems_simps zeroBaseInstance_def)

lemma pathStore_ranked: "ranked (heap pathStore) (\<lambda>x. 2 - x)"
  by (simp add: ranked_def GetChildren_def pathStore_heap elems_simps zeroBaseInstance_def)

lemma pathStore_descendants:
  "GetDescendants 3 (heap pathStore) 0 = Some [(PtrBaseInstance, 1), (PtrBaseInstance, 2)]"
  "GetDescendants 2 (heap pathStore) 1 = Some [(PtrBaseInstance, 2)]"
  by (simp_all add: numeral_3_eq_3 numeral_2_eq_2 pathStore_fields elems_simps appendAll_def)

theorem Destroy_removes_subtree_witness:
  "GetDescendants 3 (heap pathStore) 0 = Some [(PtrBaseInstance, 1), (PtrBaseInstance, 2)]
   \<and> GetDescendants 2 (heap pathStore) 1 = Some [(PtrBaseInstance, 2)]
   \<and> (\<exists>h1 ds. Destroy 2 (heap pathStore) 1 = Some h1 \<and> GetDescendants 3 h1 0 = Some ds
         \<and> 1 \<notin> snd ` set ds \<and> 2 \<notin> snd ` set ds)"
  using Destroy_removes_subtree [OF pathStore_treeInvariant pathStore_ranked pathStore_descendants(2),
      of 2 0 3] pathStore_descendants
  by simp

subsection \<open>SetParent with a parent held as a BaseInstance pointer\<close>

lemma GetChildren_addChild:
  "GetChildren (addChild h p c) x = (if x = p then GetChildren h p @ [c] else GetChildren h x)"
  by (simp add: GetChildren_def addChild_def elems_simps)

lemma parent_addChild: "parent (addChild h p c x) = parent (h x)"
  by (simp add: addChild_def)

lemma GetChildren_set_parent: "GetChildren (h(b := (h b)\<lparr>parent := v\<rparr>)) x = GetChildren h x"
  by (simp add: GetChildren_def)

text \<open>What a returning \<^verbatim>\<open>SetParent\<close> leaves, in terms of child lists and parent pointers.\<close>

lemma SetParent_result:
  assumes nd: "\<forall>t. parent (h a) \<noteq> Some (t, a)" and np: "newParent \<noteq> Some (PtrBaseInstance, a)"
  shows "\<exists>h1. SetParent h a newParent = Inr h1
     \<and> (\<forall>x. parent (h1 x) = (if x = a then newParent else parent (h x)))
     \<and> (\<forall>x. GetChildren h1 x =
           (let old = (if parent (h a) = Some (PtrBaseInstance, x)
                       then remove1 (PtrBaseInstance, a) (GetChildren h x) else GetChildren h x)
            in if newParent = Some (PtrBaseInstance, x) then old @ [(PtrBaseInstance, a)] else old))"
proof -
  obtain h0 where h0: "h0 = (case parent (h a) of None \<Rightarrow> h
        | Some (ty, p) \<Rightarrow> if ty = PtrBaseInstance then removeChild h p (PtrBaseInstance, a) else h)" by simp
  have par0: "\<And>x. parent (h0 x) = parent (h x)"
    by (auto simp: h0 parent_removeChild split: option.splits)
  have kids0: "\<And>x. GetChildren h0 x = (if parent (h a) = Some (PtrBaseInstance, x)
                       then remove1 (PtrBaseInstance, a) (GetChildren h x) else GetChildren h x)"
    by (auto simp: h0 GetChildren_removeChild split: option.splits)
  let ?h2 = "h0(a := (h0 a)\<lparr>parent := newParent\<rparr>)"
  obtain h1 where h1: "h1 = (case newParent of None \<Rightarrow> ?h2
        | Some (ty, p) \<Rightarrow> if ty = PtrBaseInstance then addChild ?h2 p (PtrBaseInstance, a) else ?h2)" by simp
  have run: "SetParent h a newParent = Inr h1"
    using nd np by (auto simp: SetParent_def h0 h1 Let_def split: option.splits)
  have par1: "\<forall>x. parent (h1 x) = (if x = a then newParent else parent (h x))"
    by (auto simp: h1 parent_addChild par0 split: option.splits)
  have kids1: "\<forall>x. GetChildren h1 x =
           (let old = (if parent (h a) = Some (PtrBaseInstance, x)
                       then remove1 (PtrBaseInstance, a) (GetChildren h x) else GetChildren h x)
            in if newParent = Some (PtrBaseInstance, x) then old @ [(PtrBaseInstance, a)] else old)"
    by (auto simp: h1 GetChildren_addChild GetChildren_set_parent kids0 Let_def split: option.splits)
  from run par1 kids1 show ?thesis by blast
qed


lemma filter_other_remove1:
  "filter (\<lambda>c. snd c \<noteq> a) (remove1 (t, a) xs) = filter (\<lambda>c. snd c \<noteq> a) xs"
  by (induction xs) auto

lemma treeInvariant_entry:
  assumes "treeInvariant h" and "c \<in> set (GetChildren h q)"
  shows "fst c = PtrBaseInstance" and "parent (h (snd c)) = Some (PtrBaseInstance, q)"
  using assms unfolding treeInvariant_def by blast+

lemma treeInvariant_distinct: "treeInvariant h \<Longrightarrow> distinct (GetChildren h q)"
  unfolding treeInvariant_def by blast

lemma SetParent_tree:
  assumes inv: "treeInvariant h"
    and nd: "\<forall>t. parent (h a) \<noteq> Some (t, a)" and np: "newParent \<noteq> Some (PtrBaseInstance, a)"
  shows "\<exists>h1. SetParent h a newParent = Inr h1
     \<and> treeInvariant h1
     \<and> GetParent h1 a = newParent
     \<and> (\<forall>q. length (filter (\<lambda>c. snd c = a) (GetChildren h1 q))
              = (if newParent = Some (PtrBaseInstance, q) then 1 else 0))
     \<and> (\<forall>q. filter (\<lambda>c. snd c \<noteq> a) (GetChildren h1 q) = filter (\<lambda>c. snd c \<noteq> a) (GetChildren h q))"
proof -
  let ?old = "\<lambda>x. if parent (h a) = Some (PtrBaseInstance, x)
                       then remove1 (PtrBaseInstance, a) (GetChildren h x) else GetChildren h x"
  from SetParent_result [of h a newParent] nd np obtain h1 where run: "SetParent h a newParent = Inr h1"
    and par1: "\<And>x. parent (h1 x) = (if x = a then newParent else parent (h x))"
    and kids1: "\<And>x. GetChildren h1 x =
        (if newParent = Some (PtrBaseInstance, x) then ?old x @ [(PtrBaseInstance, a)] else ?old x)"
    by (auto simp: Let_def)
  have old_sub: "\<And>x. set (?old x) \<subseteq> set (GetChildren h x)"
    by (simp add: set_remove1_subset)
  have old_dist: "\<And>x. distinct (?old x)"
    using treeInvariant_distinct [OF inv] by simp
  have old_free: "snd c \<noteq> a" if "c \<in> set (?old x)" for c x
  proof
    assume eq: "snd c = a"
    from that old_sub have c0: "c \<in> set (GetChildren h x)" by blast
    from treeInvariant_entry [OF inv c0] eq have "c = (PtrBaseInstance, a)"
      and p: "parent (h a) = Some (PtrBaseInstance, x)" by (cases c; simp)+
    with that treeInvariant_distinct [OF inv, of x] show False by simp
  qed
  have old_keep: "\<And>x. filter (\<lambda>c. snd c \<noteq> a) (?old x) = filter (\<lambda>c. snd c \<noteq> a) (GetChildren h x)"
  proof -
    fix x
    have "filter (\<lambda>c. snd c \<noteq> a) (remove1 (PtrBaseInstance, a) (GetChildren h x))
        = filter (\<lambda>c. snd c \<noteq> a) (GetChildren h x)"
      by (rule filter_other_remove1)
    then show "filter (\<lambda>c. snd c \<noteq> a) (?old x) = filter (\<lambda>c. snd c \<noteq> a) (GetChildren h x)"
      by simp
  qed
  have inv1: "treeInvariant h1"
    unfolding treeInvariant_def
  proof (intro allI conjI ballI)
    fix q
    show "distinct (GetChildren h1 q)"
      using old_dist [of q] old_free [of "(PtrBaseInstance, a)" q] by (auto simp: kids1)
  next
    fix q c assume c: "c \<in> set (GetChildren h1 q)"
    then have "(c = (PtrBaseInstance, a) \<and> newParent = Some (PtrBaseInstance, q)) \<or> c \<in> set (?old q)"
      by (auto simp: kids1 split: if_splits)
    then show "fst c = PtrBaseInstance"
      using old_sub [of q] treeInvariant_entry(1) [OF inv, of c q] by auto
  next
    fix q c assume c: "c \<in> set (GetChildren h1 q)"
    then have "(c = (PtrBaseInstance, a) \<and> newParent = Some (PtrBaseInstance, q)) \<or> c \<in> set (?old q)"
      by (auto simp: kids1 split: if_splits)
    then show "parent (h1 (snd c)) = Some (PtrBaseInstance, q)"
    proof
      assume "c = (PtrBaseInstance, a) \<and> newParent = Some (PtrBaseInstance, q)"
      then show ?thesis by (simp add: par1)
    next
      assume o: "c \<in> set (?old q)"
      then have "snd c \<noteq> a" by (rule old_free)
      moreover from o old_sub have "c \<in> set (GetChildren h q)" by blast
      ultimately show ?thesis using treeInvariant_entry(2) [OF inv] by (simp add: par1)
    qed
  qed
  have none_old: "\<And>x. filter (\<lambda>c. snd c = a) (?old x) = []"
    using old_free by (simp add: filter_empty_conv del: if_split)
  have count: "\<forall>q. length (filter (\<lambda>c. snd c = a) (GetChildren h1 q))
              = (if newParent = Some (PtrBaseInstance, q) then 1 else 0)"
    using none_old by (simp add: kids1 del: if_split)
  have keep: "\<forall>q. filter (\<lambda>c. snd c \<noteq> a) (GetChildren h1 q) = filter (\<lambda>c. snd c \<noteq> a) (GetChildren h q)"
    using old_keep by (simp add: kids1)
  have "GetParent h1 a = newParent" by (simp add: GetParent_def par1)
  with run inv1 count keep show ?thesis by blast
qed


text \<open>
  With a parent held as \<^verbatim>\<open>*BaseInstance\<close>, in a heap that satisfies the tree invariant:
  after \<^verbatim>\<open>a.SetParent(b)\<close> the node \<open>a\<close> is in the child list of \<open>b\<close> exactly once and
  its parent is \<open>b\<close>; after \<^verbatim>\<open>a.SetParent(nil)\<close> it is in no child list and has no
  parent. The invariant holds again after each call.
\<close>

lemma SetParent_attach_then_detach:
  assumes inv: "treeInvariant h" and ab: "a \<noteq> b" and nd: "\<forall>t. parent (h a) \<noteq> Some (t, a)"
  shows "\<exists>h1 h2. SetParent h a (Some (PtrBaseInstance, b)) = Inr h1
     \<and> length (filter (\<lambda>c. snd c = a) (GetChildren h1 b)) = 1
     \<and> GetParent h1 a = Some (PtrBaseInstance, b)
     \<and> treeInvariant h1
     \<and> SetParent h1 a None = Inr h2
     \<and> (\<forall>q. a \<notin> snd ` set (GetChildren h2 q))
     \<and> GetParent h2 a = None
     \<and> treeInvariant h2"
proof -
  from SetParent_tree [OF inv nd, of "Some (PtrBaseInstance, b)"] ab
  obtain h1 where r1: "SetParent h a (Some (PtrBaseInstance, b)) = Inr h1"
    and inv1: "treeInvariant h1" and p1: "GetParent h1 a = Some (PtrBaseInstance, b)"
    and c1: "\<forall>q. length (filter (\<lambda>c. snd c = a) (GetChildren h1 q))
              = (if Some (PtrBaseInstance, b) = Some (PtrBaseInstance, q) then 1 else 0)"
    by auto
  have nd1: "\<forall>t. parent (h1 a) \<noteq> Some (t, a)"
    using p1 ab by (simp add: GetParent_def)
  from SetParent_tree [OF inv1 nd1, of None]
  obtain h2 where r2: "SetParent h1 a None = Inr h2"
    and inv2: "treeInvariant h2" and p2: "GetParent h2 a = None"
    and c2: "\<forall>q. length (filter (\<lambda>c. snd c = a) (GetChildren h2 q)) = 0"
    by auto
  have "\<forall>q. a \<notin> snd ` set (GetChildren h2 q)"
  proof (intro allI notI)
    fix q assume "a \<in> snd ` set (GetChildren h2 q)"
    then have "filter (\<lambda>c. snd c = a) (GetChildren h2 q) \<noteq> []"
      by (auto simp: filter_empty_conv)
    with c2 show False by simp
  qed
  moreover from c1 have "length (filter (\<lambda>c. snd c = a) (GetChildren h1 b)) = 1" by simp
  ultimately show ?thesis using r1 inv1 p1 r2 inv2 p2 by blast
qed

subsection \<open>Clone with the default manager\<close>

lemma those_map_iff:
  "those (map g xs) = Some ys \<longleftrightarrow> list_all2 (\<lambda>x y. g x = Some y) xs ys"
proof (induction xs arbitrary: ys)
  case Nil
  show ?case by auto
next
  case (Cons x xs)
  show ?case
  proof (cases "g x")
    case None
    then show ?thesis by (auto simp: list_all2_Cons1)
  next
    case (Some y)
    then show ?thesis using Cons.IH
      by (cases "those (map g xs)") (auto simp: list_all2_Cons1)
  qed
qed

lemma shapeOf_Suc_iff:
  "shapeOf (Suc f) h a = Some t \<longleftrightarrow>
     (\<exists>ts. t = Shape (className (h a)) (name (h a)) ts
         \<and> list_all2 (\<lambda>c s. shapeOf f h (snd c) = Some s) (GetChildren h a) ts)"
  by (auto simp: those_map_iff)

lemma reachFrom_child_subset:
  assumes "c \<in> set (GetChildren h a)"
  shows "reachFrom h {snd c} \<subseteq> reachFrom h {a}"
proof -
  have "reachFrom h {snd c} \<subseteq> reachFrom h (snd ` set (GetChildren h a))"
    using assms by (auto simp: reachFrom_def)
  then show ?thesis by (auto simp: reachFrom_node)
qed

lemma reachFrom_agree:
  assumes "\<forall>x\<in>reachFrom h S. children (h1 x) = children (h x)"
  shows "reachFrom h1 S = reachFrom h S"
proof
  show "reachFrom h1 S \<subseteq> reachFrom h S"
  proof
    fix x assume "x \<in> reachFrom h1 S"
    then obtain s where s: "s \<in> S" "(s, x) \<in> (childEdges h1)\<^sup>*" by (auto simp: reachFrom_def)
    from s(2) have "(s, x) \<in> (childEdges h)\<^sup>*"
    proof (induction rule: rtrancl_induct)
      case base show ?case by simp
    next
      case (step y z)
      from step.IH s(1) have "y \<in> reachFrom h S" by (auto simp: reachFrom_def)
      with assms have "children (h1 y) = children (h y)" by blast
      with step.hyps(2) have "(y, z) \<in> childEdges h" by (simp add: childEdges_def GetChildren_def)
      with step.IH show ?case by (rule rtrancl_into_rtrancl)
    qed
    with s(1) show "x \<in> reachFrom h S" by (auto simp: reachFrom_def)
  qed
next
  show "reachFrom h S \<subseteq> reachFrom h1 S"
  proof
    fix x assume "x \<in> reachFrom h S"
    then obtain s where s: "s \<in> S" "(s, x) \<in> (childEdges h)\<^sup>*" by (auto simp: reachFrom_def)
    from s(2) have "(s, x) \<in> (childEdges h1)\<^sup>*"
    proof (induction rule: rtrancl_induct)
      case base show ?case by simp
    next
      case (step y z)
      from step.hyps(1) s(1) have "y \<in> reachFrom h S" by (auto simp: reachFrom_def)
      with assms have "children (h1 y) = children (h y)" by blast
      with step.hyps(2) have "(y, z) \<in> childEdges h1" by (simp add: childEdges_def GetChildren_def)
      with step.IH show ?case by (rule rtrancl_into_rtrancl)
    qed
    with s(1) show "x \<in> reachFrom h1 S" by (auto simp: reachFrom_def)
  qed
qed

lemma shapeOf_agree:
  assumes "\<forall>x\<in>reachFrom h {a}. name (h1 x) = name (h x) \<and> className (h1 x) = className (h x)
             \<and> children (h1 x) = children (h x)"
  shows "shapeOf f h1 a = shapeOf f h a"
  using assms
proof (induction f arbitrary: a)
  case 0
  show ?case by simp
next
  case (Suc f)
  have a: "a \<in> reachFrom h {a}" by (simp add: reachFrom_self)
  with Suc.prems have here: "name (h1 a) = name (h a)" "className (h1 a) = className (h a)"
    "GetChildren h1 a = GetChildren h a" by (simp_all add: GetChildren_def)
  have m: "map (\<lambda>c. shapeOf f h1 (snd c)) (GetChildren h a) = map (\<lambda>c. shapeOf f h (snd c)) (GetChildren h a)"
  proof (rule map_cong [OF refl])
    fix c assume "c \<in> set (GetChildren h a)"
    then have "reachFrom h {snd c} \<subseteq> reachFrom h {a}" by (rule reachFrom_child_subset)
    with Suc.prems show "shapeOf f h1 (snd c) = shapeOf f h (snd c)"
      by (intro Suc.IH) blast
  qed
  show ?case by (simp only: shapeOf.simps here m)
qed


lemma NewInstanceManager_registry:
  "registry NewInstanceManager cn = (if cn = ''Instance'' then Some baseCtor else None)"
  by (simp add: NewInstanceManager_def RegisterClass_def)

lemma Clone_default_Suc:
  assumes "b \<noteq> nextAddr st"
  shows "Clone (Suc f) (Some NewInstanceManager) st b =
     map_option (\<lambda>st4. ((PtrBaseInstance, nextAddr st), st4))
       (cloneChildren (Clone f (Some NewInstanceManager)) (PtrBaseInstance, nextAddr st)
          \<lparr>heap = (heap st)(nextAddr st := zeroBaseInstance\<lparr>name := name (heap st b),
                     className := className (heap st b), children := Some []\<rparr>),
            nextAddr = Suc (nextAddr st)\<rparr>
          (GetChildren (heap st) b))"
  using assms
  by (cases "className (heap st b) = ''Instance''")
     (simp_all add: Create_def NewInstanceManager_registry baseCtor_def NewBaseInstance_def Let_def
       SetName_def GetChildren_def zeroBaseInstance_def)


lemma clonePostD:
  assumes "clonePost f st t st1"
  shows "nextAddr st < nextAddr st1"
    and "x < nextAddr st \<Longrightarrow> heap st1 x = heap st x"
    and "shapeOf f (heap st1) (nextAddr st) = Some t"
    and "parent (heap st1 (nextAddr st)) = None"
    and "reachFrom (heap st1) {nextAddr st} \<subseteq> {x. nextAddr st \<le> x \<and> x < nextAddr st1}"
  using assms unfolding clonePost_def by blast+

lemma cloneChildren_default:
  assumes IH: "\<And>st n t. shapeOf f (heap st) n = Some t \<Longrightarrow>
        reachFrom (heap st) {n} \<subseteq> {x. x < nextAddr st} \<Longrightarrow>
        \<exists>st1. Clone f (Some NewInstanceManager) st n = Some ((PtrBaseInstance, nextAddr st), st1)
            \<and> clonePost f st t st1"
    and shapes: "list_all2 (\<lambda>c t. shapeOf f (heap st) (snd c) = Some t) cs ts"
    and src: "\<forall>c\<in>set cs. reachFrom (heap st) {snd c} \<subseteq> {x. x < n0}"
    and low: "n0 \<le> a0" and high: "a0 < nextAddr st"
  shows "\<exists>st1 ks. cloneChildren (Clone f (Some NewInstanceManager)) (PtrBaseInstance, a0) st cs = Some st1
     \<and> GetChildren (heap st1) a0 = GetChildren (heap st) a0 @ ks
     \<and> list_all2 (\<lambda>k t. shapeOf f (heap st1) (snd k) = Some t) ks ts
     \<and> (\<forall>k\<in>set ks. reachFrom (heap st1) {snd k} \<subseteq> {x. nextAddr st \<le> x \<and> x < nextAddr st1})
     \<and> (\<forall>x<nextAddr st. x \<noteq> a0 \<longrightarrow> heap st1 x = heap st x)
     \<and> name (heap st1 a0) = name (heap st a0)
     \<and> className (heap st1 a0) = className (heap st a0)
     \<and> parent (heap st1 a0) = parent (heap st a0)
     \<and> nextAddr st \<le> nextAddr st1"
  using shapes src high
proof (induction cs arbitrary: st ts)
  case Nil
  then show ?case by simp
next
  case (Cons c cs)
  from Cons.prems(1) obtain t ts' where ts: "ts = t # ts'"
    and tc: "shapeOf f (heap st) (snd c) = Some t"
    and rest: "list_all2 (\<lambda>c t. shapeOf f (heap st) (snd c) = Some t) cs ts'"
    by (auto simp: list_all2_Cons1)
  let ?N = "nextAddr st"
  have below: "n0 \<le> ?N" using low Cons.prems(3) by simp
  have srcc: "reachFrom (heap st) {snd c} \<subseteq> {x. x < ?N}"
    using Cons.prems(2) below by fastforce
  from IH [OF tc srcc] obtain stc
    where cl: "Clone f (Some NewInstanceManager) st (snd c) = Some ((PtrBaseInstance, ?N), stc)"
      and post: "clonePost f st t stc" by blast
  note pc = clonePostD [OF post]
  have a0N: "a0 \<noteq> ?N" using Cons.prems(3) by simp
  let ?h' = "addChild ((heap stc)(?N := (heap stc ?N)\<lparr>parent := Some (PtrBaseInstance, a0)\<rparr>))
               a0 (PtrBaseInstance, ?N)"
  have sp: "SetParent (heap stc) ?N (Some (PtrBaseInstance, a0)) = Inr ?h'"
    using pc(4) a0N by (simp add: SetParent_def Let_def)
  let ?st' = "stc\<lparr>heap := ?h'\<rparr>"
  have h'_other: "\<And>x. x \<noteq> a0 \<Longrightarrow> x \<noteq> ?N \<Longrightarrow> ?h' x = heap stc x"
    by (simp add: addChild_def)
  have h'_N: "name (?h' ?N) = name (heap stc ?N)" "className (?h' ?N) = className (heap stc ?N)"
    "children (?h' ?N) = children (heap stc ?N)"
    using a0N by (simp_all add: addChild_def)
  have h'_a0: "name (?h' a0) = name (heap st a0)" "className (?h' a0) = className (heap st a0)"
    "parent (?h' a0) = parent (heap st a0)"
    "GetChildren ?h' a0 = GetChildren (heap st) a0 @ [(PtrBaseInstance, ?N)]"
    using a0N pc(2) [OF Cons.prems(3)] by (simp_all add: addChild_def GetChildren_def elems_simps)
  have old_same: "?h' x = heap st x" if "x < n0" for x
  proof -
    from that low below have "x \<noteq> a0" "x \<noteq> ?N" "x < ?N" by simp_all
    then show ?thesis using h'_other pc(2) by simp
  qed
  have shapes': "list_all2 (\<lambda>c t. shapeOf f (heap ?st') (snd c) = Some t) cs ts'"
  proof (rule list.rel_mono_strong [OF rest])
    fix c' t' assume c': "c' \<in> set cs" and "t' \<in> set ts'"
      and s: "shapeOf f (heap st) (snd c') = Some t'"
    have "shapeOf f ?h' (snd c') = shapeOf f (heap st) (snd c')"
    proof (rule shapeOf_agree, rule ballI)
      fix x assume "x \<in> reachFrom (heap st) {snd c'}"
      with Cons.prems(2) c' have "x < n0" by fastforce
      then show "name (?h' x) = name (heap st x) \<and> className (?h' x) = className (heap st x)
             \<and> children (?h' x) = children (heap st x)" by (simp add: old_same)
    qed
    with s show "shapeOf f (heap ?st') (snd c') = Some t'" by simp
  qed
  have src': "\<forall>c'\<in>set cs. reachFrom (heap ?st') {snd c'} \<subseteq> {x. x < n0}"
  proof
    fix c' assume c': "c' \<in> set cs"
    have "reachFrom ?h' {snd c'} = reachFrom (heap st) {snd c'}"
    proof (rule reachFrom_agree, rule ballI)
      fix x assume "x \<in> reachFrom (heap st) {snd c'}"
      with Cons.prems(2) c' have "x < n0" by fastforce
      then show "children (?h' x) = children (heap st x)" by (simp add: old_same)
    qed
    with Cons.prems(2) c' show "reachFrom (heap ?st') {snd c'} \<subseteq> {x. x < n0}" by simp
  qed
  have high': "a0 < nextAddr ?st'" using Cons.prems(3) pc(1) by simp
  from Cons.IH [OF shapes' src' high'] obtain st1 ks where
    run: "cloneChildren (Clone f (Some NewInstanceManager)) (PtrBaseInstance, a0) ?st' cs = Some st1"
    and kids: "GetChildren (heap st1) a0 = GetChildren (heap ?st') a0 @ ks"
    and sh: "list_all2 (\<lambda>k t. shapeOf f (heap st1) (snd k) = Some t) ks ts'"
    and rs: "\<forall>k\<in>set ks. reachFrom (heap st1) {snd k} \<subseteq> {x. nextAddr ?st' \<le> x \<and> x < nextAddr st1}"
    and fr: "\<forall>x<nextAddr ?st'. x \<noteq> a0 \<longrightarrow> heap st1 x = heap ?st' x"
    and nm: "name (heap st1 a0) = name (heap ?st' a0)"
    and cn: "className (heap st1 a0) = className (heap ?st' a0)"
    and pa: "parent (heap st1 a0) = parent (heap ?st' a0)"
    and mono: "nextAddr ?st' \<le> nextAddr st1"
    by blast
  have run0: "cloneChildren (Clone f (Some NewInstanceManager)) (PtrBaseInstance, a0) st (c # cs) = Some st1"
    using cl sp run by simp
  have kids0: "GetChildren (heap st1) a0 = GetChildren (heap st) a0 @ ((PtrBaseInstance, ?N) # ks)"
    using kids h'_a0(4) by simp
  have inrange: "x \<noteq> a0 \<and> x < nextAddr ?st'" if "x \<in> reachFrom (heap stc) {?N}" for x
    using that pc(5) Cons.prems(3) by fastforce
  have agree1: "name (heap st1 x) = name (heap stc x) \<and> className (heap st1 x) = className (heap stc x)
             \<and> children (heap st1 x) = children (heap stc x)"
    if "x \<in> reachFrom (heap stc) {?N}" for x
  proof -
    from inrange [OF that] fr have "heap st1 x = ?h' x" by simp
    moreover have "name (?h' x) = name (heap stc x) \<and> className (?h' x) = className (heap stc x)
             \<and> children (?h' x) = children (heap stc x)"
      using inrange [OF that] h'_N h'_other [of x] by (cases "x = ?N") simp_all
    ultimately show ?thesis by simp
  qed
  have shN: "shapeOf f (heap st1) ?N = Some t"
    using shapeOf_agree [of "heap stc" ?N "heap st1" f] agree1 pc(3) by simp
  have rN: "reachFrom (heap st1) {?N} \<subseteq> {x. ?N \<le> x \<and> x < nextAddr st1}"
  proof -
    have "reachFrom (heap st1) {?N} = reachFrom (heap stc) {?N}"
      using reachFrom_agree [of "heap stc" "{?N}" "heap st1"] agree1 by blast
    with pc(5) mono show ?thesis by fastforce
  qed
  have sh0: "list_all2 (\<lambda>k t. shapeOf f (heap st1) (snd k) = Some t) ((PtrBaseInstance, ?N) # ks) ts"
    using shN sh ts by simp
  have rs0: "\<forall>k\<in>set ((PtrBaseInstance, ?N) # ks).
      reachFrom (heap st1) {snd k} \<subseteq> {x. ?N \<le> x \<and> x < nextAddr st1}"
    using rN rs pc(1) by fastforce
  have fr0: "\<forall>x<?N. x \<noteq> a0 \<longrightarrow> heap st1 x = heap st x"
  proof (intro allI impI)
    fix x assume x: "x < ?N" "x \<noteq> a0"
    with pc(1) fr have "heap st1 x = ?h' x" by simp
    also from x have "\<dots> = heap stc x" by (simp add: h'_other)
    also from x have "\<dots> = heap st x" by (simp add: pc(2))
    finally show "heap st1 x = heap st x" .
  qed
  have "name (heap st1 a0) = name (heap st a0)" "className (heap st1 a0) = className (heap st a0)"
    "parent (heap st1 a0) = parent (heap st a0)" "?N \<le> nextAddr st1"
    using nm cn pa mono h'_a0 pc(1) by simp_all
  with run0 kids0 sh0 rs0 fr0 show ?case by blast
qed


text \<open>
  With the default manager as \<^verbatim>\<open>init\<close> leaves it (only the class Instance registered),
  \<^verbatim>\<open>Clone\<close> of a node whose subtree is a finite tree of allocated nodes returns a
  new node at the first free address; the copy has the shape of the source (the same
  class names, names and children, in order), its nodes are all freshly allocated, its
  root has no parent, and no node that existed before is changed.
\<close>

lemma Clone_default_isomorphic:
  "shapeOf f (heap st) n = Some t \<Longrightarrow> reachFrom (heap st) {n} \<subseteq> {x. x < nextAddr st} \<Longrightarrow>
     \<exists>st1. Clone f (Some NewInstanceManager) st n = Some ((PtrBaseInstance, nextAddr st), st1)
         \<and> clonePost f st t st1"
proof (induction f arbitrary: st n t)
  case 0
  then show ?case by simp
next
  case (Suc f)
  let ?N = "nextAddr st"
  let ?st3 = "\<lparr>heap = (heap st)(?N := zeroBaseInstance\<lparr>name := name (heap st n),
                     className := className (heap st n), children := Some []\<rparr>),
            nextAddr = Suc ?N\<rparr>"
  have nN: "n < ?N" using Suc.prems(2) reachFrom_self [of n "{n}" "heap st"] by auto
  from Suc.prems(1) obtain ts where t: "t = Shape (className (heap st n)) (name (heap st n)) ts"
    and kidsh: "list_all2 (\<lambda>c s. shapeOf f (heap st) (snd c) = Some s) (GetChildren (heap st) n) ts"
    unfolding shapeOf_Suc_iff by blast
  have kid_low: "reachFrom (heap st) {snd c} \<subseteq> {x. x < ?N}" if "c \<in> set (GetChildren (heap st) n)" for c
    using reachFrom_child_subset [OF that] Suc.prems(2) by blast
  have same3: "\<And>x. x < ?N \<Longrightarrow> heap ?st3 x = heap st x" by simp
  have shapes3: "list_all2 (\<lambda>c s. shapeOf f (heap ?st3) (snd c) = Some s) (GetChildren (heap st) n) ts"
  proof (rule list.rel_mono_strong [OF kidsh])
    fix c s assume c: "c \<in> set (GetChildren (heap st) n)" and "s \<in> set ts"
      and sh: "shapeOf f (heap st) (snd c) = Some s"
    have "shapeOf f (heap ?st3) (snd c) = shapeOf f (heap st) (snd c)"
    proof (rule shapeOf_agree, rule ballI)
      fix x assume "x \<in> reachFrom (heap st) {snd c}"
      with kid_low [OF c] have "x < ?N" by blast
      then show "name (heap ?st3 x) = name (heap st x) \<and> className (heap ?st3 x) = className (heap st x)
             \<and> children (heap ?st3 x) = children (heap st x)" by simp
    qed
    with sh show "shapeOf f (heap ?st3) (snd c) = Some s" by simp
  qed
  have src3: "\<forall>c\<in>set (GetChildren (heap st) n). reachFrom (heap ?st3) {snd c} \<subseteq> {x. x < ?N}"
  proof
    fix c assume c: "c \<in> set (GetChildren (heap st) n)"
    have "reachFrom (heap ?st3) {snd c} = reachFrom (heap st) {snd c}"
    proof (rule reachFrom_agree, rule ballI)
      fix x assume "x \<in> reachFrom (heap st) {snd c}"
      with kid_low [OF c] have "x < ?N" by blast
      then show "children (heap ?st3 x) = children (heap st x)" by simp
    qed
    with kid_low [OF c] show "reachFrom (heap ?st3) {snd c} \<subseteq> {x. x < ?N}" by simp
  qed
  from cloneChildren_default [of f ?st3 "GetChildren (heap st) n" ts ?N ?N, OF Suc.IH shapes3 src3]
  obtain st1 ks where
    run: "cloneChildren (Clone f (Some NewInstanceManager)) (PtrBaseInstance, ?N) ?st3
            (GetChildren (heap st) n) = Some st1"
    and kids: "GetChildren (heap st1) ?N = GetChildren (heap ?st3) ?N @ ks"
    and sh: "list_all2 (\<lambda>k t. shapeOf f (heap st1) (snd k) = Some t) ks ts"
    and rs: "\<forall>k\<in>set ks. reachFrom (heap st1) {snd k} \<subseteq> {x. nextAddr ?st3 \<le> x \<and> x < nextAddr st1}"
    and fr: "\<forall>x<nextAddr ?st3. x \<noteq> ?N \<longrightarrow> heap st1 x = heap ?st3 x"
    and nm: "name (heap st1 ?N) = name (heap ?st3 ?N)"
    and cn: "className (heap st1 ?N) = className (heap ?st3 ?N)"
    and pa: "parent (heap st1 ?N) = parent (heap ?st3 ?N)"
    and mono: "nextAddr ?st3 \<le> nextAddr st1"
    by auto
  have cl: "Clone (Suc f) (Some NewInstanceManager) st n = Some ((PtrBaseInstance, ?N), st1)"
    using nN run by (simp add: Clone_default_Suc del: Clone.simps)
  have p1: "?N < nextAddr st1" using mono by simp
  have p2: "\<forall>x<?N. heap st1 x = heap st x" using fr by simp
  have kids1: "GetChildren (heap st1) ?N = ks"
    using kids by (simp add: GetChildren_def elems_simps)
  have p3: "shapeOf (Suc f) (heap st1) ?N = Some t"
    unfolding shapeOf_Suc_iff using t nm cn sh kids1 by (simp add: zeroBaseInstance_def)
  have p4: "parent (heap st1 ?N) = None" using pa by (simp add: zeroBaseInstance_def)
  have p5: "reachFrom (heap st1) {?N} \<subseteq> {x. ?N \<le> x \<and> x < nextAddr st1}"
  proof -
    have "reachFrom (heap st1) (snd ` set ks) \<subseteq> {x. ?N \<le> x \<and> x < nextAddr st1}"
      using rs by (fastforce simp: reachFrom_def)
    with p1 show ?thesis by (auto simp: reachFrom_node kids1)
  qed
  from cl p1 p2 p3 p4 p5 show ?case unfolding clonePost_def by blast
qed

end
